theory Spec2Isabelle
  imports Complex_Main
begin

section \<open>Python strings\<close>

text \<open>
  A Python \<open>str\<close> is a sequence of Unicode code points, so a string is a list of code
  points here (natural numbers). The sentence splitter works on the code points
  U+3002, U+FF01 and U+FF1F, which a byte string cannot hold as single characters.
  \<open>ascii\<close> writes a literal of the source.
\<close>

type_synonym pystr = "nat list"

definition ascii :: "string \<Rightarrow> pystr" where
  "ascii s = map of_char s"

text \<open>
  \<open>str.isspace\<close> on one code point, which is also what \<open>\s\<close> matches in a \<open>str\<close>
  pattern of \<open>re\<close> and what \<open>str.strip()\<close> removes: U+0009 to U+000D, U+001C to U+0020,
  U+0085, U+00A0, U+1680, U+2000 to U+200A, U+2028, U+2029, U+202F, U+205F, U+3000.
\<close>

definition isspace :: "nat \<Rightarrow> bool" where
  "isspace c =
     ((9 \<le> c \<and> c \<le> 13) \<or> (28 \<le> c \<and> c \<le> 32) \<or> c = 133 \<or> c = 160 \<or> c = 5760 \<or>
      (8192 \<le> c \<and> c \<le> 8202) \<or> c = 8232 \<or> c = 8233 \<or> c = 8239 \<or> c = 8287 \<or>
      c = 12288)"

definition lstrip :: "pystr \<Rightarrow> pystr" where
  "lstrip s = dropWhile isspace s"

definition rstrip :: "pystr \<Rightarrow> pystr" where
  "rstrip s = rev (dropWhile isspace (rev s))"

definition strip :: "pystr \<Rightarrow> pystr" where
  "strip s = rstrip (lstrip s)"

text \<open>\<open>not s.strip()\<close>: the string is empty or holds white space only.\<close>

definition blank :: "pystr \<Rightarrow> bool" where
  "blank s = (strip s = [])"

definition startswith :: "pystr \<Rightarrow> pystr \<Rightarrow> bool" where
  "startswith s p = (take (length p) s = p)"

text \<open>
  \<open>str.lower()\<close>. On a string of ASCII characters it maps \<open>A\<close> to \<open>Z\<close> onto \<open>a\<close> to
  \<open>z\<close> and keeps every other character. On any other string it follows the Unicode
  case tables, which are not part of the repository: they are the parameter \<open>ul\<close>.
\<close>

definition ascii_lower :: "nat \<Rightarrow> nat" where
  "ascii_lower c = (if 65 \<le> c \<and> c \<le> 90 then c + 32 else c)"

definition lower :: "(pystr \<Rightarrow> pystr) \<Rightarrow> pystr \<Rightarrow> pystr" where
  "lower ul s = (if list_all (\<lambda>c. c < 128) s then map ascii_lower s else ul s)"

text \<open>\<open>s.replace(old, new)\<close> where \<open>old\<close> is a single character.\<close>

definition replace_char :: "nat \<Rightarrow> pystr \<Rightarrow> pystr \<Rightarrow> pystr" where
  "replace_char old new s = concat (map (\<lambda>c. if c = old then new else [c]) s)"

section \<open>The language-code mapper\<close>

definition special_map :: "(pystr \<times> pystr) list" where
  "special_map =
     [(ascii ''zh-cn'', ascii ''zh''),
      (ascii ''zh-tw'', ascii ''zh''),
      (ascii ''zh'', ascii ''zh''),
      (ascii ''pt-br'', ascii ''pt''),
      (ascii ''sr'', ascii ''sr''),
      (ascii ''jw'', ascii ''jv''),
      (ascii ''he'', ascii ''he''),
      (ascii ''iw'', ascii ''he''),
      (ascii ''id'', ascii ''id''),
      (ascii ''fil'', ascii ''tl''),
      (ascii ''uk'', ascii ''uk''),
      (ascii ''no'', ascii ''no''),
      (ascii ''nb'', ascii ''no''),
      (ascii ''nn'', ascii ''no'')]"

text \<open>
  \<open>map_langdetect_to_m2m\<close>. The argument is \<open>None\<close> or a string: \<open>not lang_code\<close> holds
  for \<open>None\<close> and for the empty string.
\<close>

definition map_langdetect_to_m2m :: "(pystr \<Rightarrow> pystr) \<Rightarrow> pystr option \<Rightarrow> pystr" where
  "map_langdetect_to_m2m ul lang_code =
     (case lang_code of
        None \<Rightarrow> ascii ''en''
      | Some code \<Rightarrow>
          if code = [] then ascii ''en''
          else
            (let lc = lower ul code in
             case map_of special_map lc of
               Some v \<Rightarrow> v
             | None \<Rightarrow> take 2 lc))"

section \<open>Verdicts, colours and escaping\<close>

text \<open>
  Scores are Python floats. They are real numbers here, and a decimal literal of the
  source stands for the number it writes.
\<close>

definition verdict_from_score :: "real \<Rightarrow> pystr \<times> pystr" where
  "verdict_from_score true_score =
     (if true_score \<ge> 0.6 then (ascii ''Likely True'', ascii ''#16a34a'')
      else if true_score \<le> 0.4 then (ascii ''Likely False'', ascii ''#dc2626'')
      else (ascii ''Uncertain'', ascii ''#d97706''))"

definition sentence_bg_color :: "real \<Rightarrow> pystr" where
  "sentence_bg_color true_score =
     (if true_score \<ge> 0.7 then ascii ''#bbf7d0''
      else if true_score \<ge> 0.6 then ascii ''#dcfce7''
      else if true_score \<le> 0.3 then ascii ''#fecaca''
      else if true_score \<le> 0.4 then ascii ''#fee2e2''
      else ascii ''#fef9c3'')"

definition escape_html :: "pystr \<Rightarrow> pystr" where
  "escape_html text =
     replace_char 62 (ascii ''&gt;'')
       (replace_char 60 (ascii ''&lt;'')
         (replace_char 38 (ascii ''&amp;'') text))"

section \<open>The sentence splitter\<close>

definition cjk_terminator :: "nat \<Rightarrow> bool" where
  "cjk_terminator c = (c = 12290 \<or> c = 65281 \<or> c = 65311)"

definition terminator :: "nat \<Rightarrow> bool" where
  "terminator c = (c = 46 \<or> c = 33 \<or> c = 63 \<or> cjk_terminator c)"

text \<open>
  \<open>re.sub(r"([\<dots>])", r"\1 ", text)\<close> over the three CJK terminators U+3002, U+FF01 and
  U+FF1F: each of them is followed by a space (U+0020).
\<close>

definition cjk_space :: "pystr \<Rightarrow> pystr" where
  "cjk_space text = concat (map (\<lambda>c. if cjk_terminator c then [c, 32] else [c]) text)"

text \<open>
  \<open>re.split\<close> with the pattern \<open>(?<=[.!?\<dots>])\s+\<close>, scanning from the left. \<open>lb\<close> says
  whether the look-behind holds at the current position (the character before it is
  a terminator), \<open>cur\<close> is the piece read since the last match. A match is the
  longest run of white space from a position where the look-behind holds; the scan
  goes on behind it. The pieces between the matches are returned, empty ones too.
\<close>

function re_split :: "bool \<Rightarrow> pystr \<Rightarrow> pystr \<Rightarrow> pystr list" where
  "re_split lb cur [] = [cur]"
| "re_split lb cur (c # cs) =
     (if lb \<and> isspace c then cur # re_split False [] (dropWhile isspace cs)
      else re_split (terminator c) (cur @ [c]) cs)"
  by pat_completeness auto
termination
  by (relation "measure (\<lambda>(lb, cur, s). length s)")
     (auto simp: less_Suc_eq_le length_dropWhile_le)

definition split_into_sentences :: "pystr \<Rightarrow> pystr list" where
  "split_into_sentences text =
     (if blank text then []
      else
        (let text' = cjk_space text;
             parts = re_split False [] (strip text')
         in map strip (filter (\<lambda>s. strip s \<noteq> []) parts)))"

text \<open>
  The splitter as the specification words it: insert the spaces, split, trim each
  fragment, drop the empty ones. It has no guard for blank input and does not trim
  the text before splitting.
\<close>

definition split_spec :: "pystr \<Rightarrow> pystr list" where
  "split_spec text = filter (\<lambda>s. s \<noteq> []) (map strip (re_split False [] (cjk_space text)))"

section \<open>Collaborators and their calls\<close>

text \<open>
  The language detector, the translation model and the zero-shot classifier are
  external. Each is a function of the record \<open>backends\<close>; \<open>None\<close> is an exception
  raised by the collaborator. The classifier pipeline is called with one string or
  with a list of strings, and answers with one response or a list of responses.
  A response holds the aligned lists \<open>labels\<close> and \<open>scores\<close>.

  The record also holds the two library functions that the model does not fix:
  \<open>unicode_lower\<close>, the Unicode case tables of \<open>str.lower()\<close>, and \<open>float_mul\<close>, the
  product of two floats in double precision, which rounds where the product of the
  real numbers does not.
\<close>

record response =
  labels :: "pystr list"
  scores :: "real list"

record backends =
  detect :: "pystr \<Rightarrow> pystr option"
  m2m_translate :: "pystr \<Rightarrow> pystr \<Rightarrow> pystr option"
  zero_shot :: "pystr \<Rightarrow> response option"
  zero_shot_batch :: "pystr list \<Rightarrow> response list option"
  unicode_lower :: "pystr \<Rightarrow> pystr"
  float_mul :: "real \<Rightarrow> real \<Rightarrow> real"

datatype call =
    DetectCall pystr
  | TranslateCall pystr pystr
  | ClassifyCall pystr
  | ClassifyBatchCall "pystr list"

text \<open>
  A computation returns the calls it made, in order, and its value; the value is
  \<open>None\<close> when an exception of a collaborator ended it.
\<close>

type_synonym 'a run = "call list \<times> 'a option"

definition ret :: "'a \<Rightarrow> 'a run" where
  "ret x = ([], Some x)"

definition invoke :: "call \<Rightarrow> 'a option \<Rightarrow> 'a run" where
  "invoke c r = ([c], r)"

definition bind :: "'a run \<Rightarrow> ('a \<Rightarrow> 'b run) \<Rightarrow> 'b run" where
  "bind m f =
     (case m of
        (cs, None) \<Rightarrow> (cs, None)
      | (cs, Some x) \<Rightarrow> (case f x of (cs', r) \<Rightarrow> (cs @ cs', r)))"

section \<open>The service\<close>

record sentence_score =
  sentence :: pystr
  true_score :: real

definition detect_language :: "backends \<Rightarrow> pystr \<Rightarrow> pystr run" where
  "detect_language b text =
     ([DetectCall text],
      Some (case detect b text of Some code \<Rightarrow> code | None \<Rightarrow> ascii ''en''))"

definition translate_to_english :: "backends \<Rightarrow> pystr \<Rightarrow> pystr \<Rightarrow> pystr run" where
  "translate_to_english b text src_lang =
     (if blank text then ret []
      else if startswith src_lang (ascii ''en'') then ret text
      else
        (let m2m_src = map_langdetect_to_m2m (unicode_lower b) (Some src_lang)
         in invoke (TranslateCall m2m_src text) (m2m_translate b m2m_src text)))"

text \<open>
  The dictionary \<open>{l.lower(): s for l, s in zip(labels, scores)}\<close>: \<open>zip\<close> stops at the
  shorter list, and a later pair wins over an earlier one with the same key.
\<close>

definition label_to_score :: "(pystr \<Rightarrow> pystr) \<Rightarrow> response \<Rightarrow> pystr \<Rightarrow> real option" where
  "label_to_score ul res = map_of (rev (zip (map (lower ul) (labels res)) (scores res)))"

text \<open>\<open>label_to_score.get("true", 0.0)\<close>\<close>

definition true_of :: "(pystr \<Rightarrow> pystr) \<Rightarrow> response \<Rightarrow> real" where
  "true_of ul res = (case label_to_score ul res (ascii ''true'') of Some s \<Rightarrow> s | None \<Rightarrow> 0.0)"

definition classify_truth_score :: "backends \<Rightarrow> pystr \<Rightarrow> real run" where
  "classify_truth_score b text =
     (if blank text then ret 0.5
      else bind (invoke (ClassifyCall text) (zero_shot b text))
             (\<lambda>result. ret (true_of (unicode_lower b) result)))"

text \<open>The slice \<open>xs[:k]\<close>: a negative \<open>k\<close> counts from the end.\<close>

definition slice_to :: "'a list \<Rightarrow> int \<Rightarrow> 'a list" where
  "slice_to xs k = (if 0 \<le> k then take (nat k) xs else take (length xs - nat (- k)) xs)"

definition classify_sentences :: "backends \<Rightarrow> pystr list \<Rightarrow> int \<Rightarrow> sentence_score list run" where
  "classify_sentences b sentences max_sentences =
     (if sentences = [] then ret []
      else
        (let limited = slice_to sentences max_sentences
         in bind (invoke (ClassifyBatchCall limited) (zero_shot_batch b limited))
              (\<lambda>results.
                 ret (map (\<lambda>(sent, res).
                             \<lparr>sentence = sent, true_score = true_of (unicode_lower b) res\<rparr>)
                        (zip limited results)
                      @ map (\<lambda>sent. \<lparr>sentence = sent, true_score = 0.5\<rparr>)
                          (drop (length limited) sentences)))))"

text \<open>
  \<open>round(x)\<close> of a float: the nearest integer to the float's value, a tie going to
  the even one. \<open>str\<close> of an integer is its decimal numeral, as the f-string writes
  it. The percentage of a span is \<open>int(round(s.true_score * 100))\<close>, where the
  product is the double-precision one.
\<close>

definition py_round :: "real \<Rightarrow> int" where
  "py_round x =
     (let f = \<lfloor>x\<rfloor>; d = x - of_int f
      in if d < 1 / 2 then f else if 1 / 2 < d then f + 1 else if even f then f else f + 1)"

fun str_of_nat :: "nat \<Rightarrow> pystr" where
  "str_of_nat n = (if n < 10 then [48 + n] else str_of_nat (n div 10) @ [48 + n mod 10])"

declare str_of_nat.simps [simp del]

definition str_of_int :: "int \<Rightarrow> pystr" where
  "str_of_int i = (if i < 0 then 45 # str_of_nat (nat (- i)) else str_of_nat (nat i))"

text \<open>\<open>sep.join(xs)\<close>\<close>

fun join :: "pystr \<Rightarrow> pystr list \<Rightarrow> pystr" where
  "join sep [] = []"
| "join sep [x] = x"
| "join sep (x # y # ys) = x @ sep @ join sep (y # ys)"

definition span_of :: "backends \<Rightarrow> sentence_score \<Rightarrow> pystr" where
  \<open>span_of b s =
     (let color = sentence_bg_color (true_score s);
          conf = py_round (float_mul b (true_score s) 100)
      in ascii ''<span style="background:'' @ color
           @ ascii ''; padding:2px 4px; border-radius:4px; margin-right:2px; display:inline;">''
           @ escape_html (sentence s) @ ascii '' ''
           @ ascii ''<small style='opacity:0.7'>(true '' @ str_of_int conf @ ascii ''%)</small>''
           @ ascii ''</span>'')\<close>

definition build_highlighted_html :: "backends \<Rightarrow> sentence_score list \<Rightarrow> pystr" where
  "build_highlighted_html b sentence_scores =
     ascii ''<div style='line-height:1.9'>''
       @ join (ascii '' '') (map (span_of b) sentence_scores) @ ascii ''</div>''"

record process_result =
  detected_language :: pystr
  translated_text :: pystr
  overall_true_score :: real
  verdict_label :: pystr
  verdict_color :: pystr
  highlighted_html :: pystr
  sentence_scores :: "sentence_score list"

text \<open>
  \<open>process\<close>. The argument is \<open>None\<close> or a string; \<open>article_text or ""\<close> turns \<open>None\<close>
  into the empty string.
\<close>

definition process :: "backends \<Rightarrow> pystr option \<Rightarrow> process_result run" where
  "process b article_text =
     (let article_text = strip (case article_text of None \<Rightarrow> [] | Some t \<Rightarrow> t)
      in if article_text = [] then
           ret \<lparr>detected_language = [], translated_text = [], overall_true_score = 0.5,
                verdict_label = [], verdict_color = ascii ''#6b7280'',
                highlighted_html = [], sentence_scores = []\<rparr>
         else
           bind (detect_language b article_text) (\<lambda>lang.
           bind (translate_to_english b article_text lang) (\<lambda>translated.
           bind (classify_truth_score b translated) (\<lambda>overall_score.
             (let (verdict_label, verdict_color) = verdict_from_score overall_score;
                  sentences = split_into_sentences translated
              in bind (classify_sentences b sentences 40) (\<lambda>sent_scores.
                   ret \<lparr>detected_language = lang, translated_text = translated,
                        overall_true_score = overall_score,
                        verdict_label = verdict_label, verdict_color = verdict_color,
                        highlighted_html = build_highlighted_html b sent_scores,
                        sentence_scores = sent_scores\<rparr>))))))"

section \<open>The specification's wording of the pure functions\<close>

text \<open>
  The colour of a sentence as the specification orders it: a list of checks, tried
  from the first; the colour of the first check that holds is returned, and the
  default when none holds.
\<close>

fun first_match :: "((real \<Rightarrow> bool) \<times> pystr) list \<Rightarrow> pystr \<Rightarrow> real \<Rightarrow> pystr" where
  "first_match [] dflt s = dflt"
| "first_match ((check, color) # rest) dflt s =
     (if check s then color else first_match rest dflt s)"

definition bucket_checks :: "((real \<Rightarrow> bool) \<times> pystr) list" where
  "bucket_checks =
     [(\<lambda>s. s \<ge> 0.7, ascii ''#bbf7d0''),
      (\<lambda>s. s \<ge> 0.6, ascii ''#dcfce7''),
      (\<lambda>s. s \<le> 0.3, ascii ''#fecaca''),
      (\<lambda>s. s \<le> 0.4, ascii ''#fee2e2'')]"

text \<open>
  Escaping in one pass: each character is replaced by its entity, or kept, and no
  character of an entity is looked at again.
\<close>

definition entity :: "nat \<Rightarrow> pystr" where
  "entity c =
     (if c = 38 then ascii ''&amp;''
      else if c = 60 then ascii ''&lt;''
      else if c = 62 then ascii ''&gt;''
      else [c])"

definition escape_once :: "pystr \<Rightarrow> pystr" where
  "escape_once text = concat (map entity text)"

text \<open>Trimming every piece and dropping the empty ones.\<close>

definition tidy :: "pystr list \<Rightarrow> pystr list" where
  "tidy ps = filter (\<lambda>s. s \<noteq> []) (map strip ps)"

text \<open>
  The first step as the specification words it: a space (U+0020) is inserted after each
  of U+3002, U+FF01 and U+FF1F.
\<close>

fun space_after_cjk :: "pystr \<Rightarrow> pystr" where
  "space_after_cjk [] = []"
| "space_after_cjk (c # cs) =
     (if c = 12290 \<or> c = 65281 \<or> c = 65311 then c # 32 # space_after_cjk cs
      else c # space_after_cjk cs)"

text \<open>
  The fragments \<open>ps\<close> laid out in order with the separators \<open>ws\<close> between neighbours:
  \<open>p\<^sub>1 w\<^sub>1 p\<^sub>2 w\<^sub>2 \<dots> p\<^sub>n\<close>.
\<close>

fun interleave :: "pystr list \<Rightarrow> pystr list \<Rightarrow> pystr" where
  "interleave [] ws = []"
| "interleave (p # ps) [] = p @ interleave ps []"
| "interleave (p # ps) (w # ws) = (if ps = [] then p else p @ w @ interleave ps ws)"

text \<open>No terminator of the piece is followed by white space: the piece has no split point.\<close>

fun no_boundary :: "pystr \<Rightarrow> bool" where
  "no_boundary (a # b # r) = (\<not> (terminator a \<and> isspace b) \<and> no_boundary (b # r))"
| "no_boundary r = True"

text \<open>Every CJK terminator of the text that has a successor is followed by white space.\<close>

fun cjk_spaced :: "pystr \<Rightarrow> bool" where
  "cjk_spaced (a # b # r) = ((cjk_terminator a \<longrightarrow> isspace b) \<and> cjk_spaced (b # r))"
| "cjk_spaced r = True"

section \<open>A configuration of the collaborators for the concrete evaluations\<close>

text \<open>
  A detector that answers French, a translation model with a fixed output, and a
  classifier that gives every text the same two labels and scores. Its strings are
  lower-cased as ASCII only and its float product is the exact one.
\<close>

definition example_backends :: backends where
  "example_backends =
     \<lparr>detect = (\<lambda>t. Some (ascii ''fr'')),
      m2m_translate = (\<lambda>src t. Some (ascii ''Hello world. This is great!'')),
      zero_shot = (\<lambda>t. Some \<lparr>labels = [ascii ''true'', ascii ''false''], scores = [0.7, 0.3]\<rparr>),
      zero_shot_batch =
        (\<lambda>ts. Some (map (\<lambda>t. \<lparr>labels = [ascii ''false'', ascii ''true''],
                                 scores = [0.8, 0.2]\<rparr>) ts)),
      unicode_lower = (\<lambda>s. s),
      float_mul = (\<lambda>x y. x * y)\<rparr>"

text \<open>
  The same collaborators with a classifier whose responses hold no "true" label, and
  with a classifier that answers a batch with an empty list.
\<close>

definition no_true_backends :: backends where
  "no_true_backends =
     example_backends
       \<lparr>zero_shot := (\<lambda>t. Some \<lparr>labels = [ascii ''false''], scores = [0.9]\<rparr>),
        zero_shot_batch :=
          (\<lambda>ts. Some (map (\<lambda>t. \<lparr>labels = [ascii ''False'', ascii ''other''],
                                   scores = [0.6, 0.4]\<rparr>) ts))\<rparr>"

definition short_backends :: backends where
  "short_backends = example_backends\<lparr>zero_shot_batch := (\<lambda>ts. Some [])\<rparr>"

section \<open>Verdict and colour buckets\<close>

text \<open>
  C5. \<open>verdict_from_score\<close> has no failing branch and sorts every score into exactly
  one of three buckets: a score of at least 0.6 gives ("Likely True", green), a score
  of at most 0.4 gives ("Likely False", red), and a score strictly between gives
  ("Uncertain", amber). Every score is in one bucket and no score is in two. At 0.6,
  0.4 and 0.5 the verdicts are Likely True, Likely False and Uncertain.
\<close>

theorem verdict_from_score_buckets:
  "(s \<ge> 0.6 \<longrightarrow> verdict_from_score s = (ascii ''Likely True'', ascii ''#16a34a''))
   \<and> (s \<le> 0.4 \<longrightarrow> verdict_from_score s = (ascii ''Likely False'', ascii ''#dc2626''))
   \<and> (0.4 < s \<and> s < 0.6 \<longrightarrow> verdict_from_score s = (ascii ''Uncertain'', ascii ''#d97706''))
   \<and> (s \<ge> 0.6 \<or> s \<le> 0.4 \<or> (0.4 < s \<and> s < 0.6))
   \<and> \<not> (s \<ge> 0.6 \<and> s \<le> 0.4)
   \<and> \<not> (s \<ge> 0.6 \<and> 0.4 < s \<and> s < 0.6)
   \<and> \<not> (s \<le> 0.4 \<and> 0.4 < s \<and> s < 0.6)
   \<and> verdict_from_score 0.6 = (ascii ''Likely True'', ascii ''#16a34a'')
   \<and> verdict_from_score 0.4 = (ascii ''Likely False'', ascii ''#dc2626'')
   \<and> verdict_from_score 0.5 = (ascii ''Uncertain'', ascii ''#d97706'')"
  by (auto simp: verdict_from_score_def)

theorem verdict_from_score_buckets_witness:
  "(0.75::real) \<ge> 0.6
   \<and> verdict_from_score 0.75 = (ascii ''Likely True'', ascii ''#16a34a'')
   \<and> (0.25::real) \<le> 0.4
   \<and> verdict_from_score 0.25 = (ascii ''Likely False'', ascii ''#dc2626'')
   \<and> (0.4::real) < 0.45 \<and> (0.45::real) < 0.6
   \<and> verdict_from_score 0.45 = (ascii ''Uncertain'', ascii ''#d97706'')"
  using verdict_from_score_buckets [of "0.75"] verdict_from_score_buckets [of "0.25"]
    verdict_from_score_buckets [of "0.45"]
  by simp

text \<open>
  C6. \<open>sentence_bg_color\<close> tries its checks in the order: at least 0.7 (light green),
  at least 0.6 (pale green), at most 0.3 (light red), at most 0.4 (pale red), and
  answers pale yellow when none holds: its colour is the one of the first check of
  that list that holds. So 0.65 is pale green, and every score strictly between 0.4
  and 0.6 is pale yellow.
\<close>

theorem sentence_bg_color_first_match:
  "sentence_bg_color s = first_match bucket_checks (ascii ''#fef9c3'') s
   \<and> sentence_bg_color 0.65 = ascii ''#dcfce7''
   \<and> (0.4 < s \<and> s < 0.6 \<longrightarrow> sentence_bg_color s = ascii ''#fef9c3'')"
  by (simp add: sentence_bg_color_def bucket_checks_def)

theorem sentence_bg_color_first_match_witness:
  "(0.4::real) < 0.5 \<and> (0.5::real) < 0.6 \<and> sentence_bg_color 0.5 = ascii ''#fef9c3''
   \<and> first_match bucket_checks (ascii ''#fef9c3'') 0.5 = ascii ''#fef9c3''"
  using sentence_bg_color_first_match [of "0.5"]
  by (simp add: bucket_checks_def)

section \<open>The language-code mapper\<close>

text \<open>
  C7. \<open>map_langdetect_to_m2m\<close> has no failing branch. \<open>None\<close> and the empty string
  map to "en". A code whose lower-cased form is a key of the table maps to the
  table's value, and any other code maps to the first two characters of its
  lower-cased form. The table sends "zh-cn", "zh-tw" and "zh" to "zh", "jw" to "jv",
  "iw" to "he", "fil" to "tl", and "no", "nb", "nn" to "no". So "zh-CN" maps to
  "zh", "" to "en" and "xx-YY" to "xx".
\<close>

theorem map_langdetect_to_m2m_cases:
  "map_langdetect_to_m2m ul None = ascii ''en''
   \<and> map_langdetect_to_m2m ul (Some []) = ascii ''en''
   \<and> (code \<noteq> [] \<and> map_of special_map (lower ul code) = Some v
        \<longrightarrow> map_langdetect_to_m2m ul (Some code) = v)
   \<and> (code \<noteq> [] \<and> map_of special_map (lower ul code) = None
        \<longrightarrow> map_langdetect_to_m2m ul (Some code) = take 2 (lower ul code))
   \<and> map_langdetect_to_m2m ul (Some (ascii ''zh-cn'')) = ascii ''zh''
   \<and> map_langdetect_to_m2m ul (Some (ascii ''zh-tw'')) = ascii ''zh''
   \<and> map_langdetect_to_m2m ul (Some (ascii ''zh'')) = ascii ''zh''
   \<and> map_langdetect_to_m2m ul (Some (ascii ''jw'')) = ascii ''jv''
   \<and> map_langdetect_to_m2m ul (Some (ascii ''iw'')) = ascii ''he''
   \<and> map_langdetect_to_m2m ul (Some (ascii ''fil'')) = ascii ''tl''
   \<and> map_langdetect_to_m2m ul (Some (ascii ''no'')) = ascii ''no''
   \<and> map_langdetect_to_m2m ul (Some (ascii ''nb'')) = ascii ''no''
   \<and> map_langdetect_to_m2m ul (Some (ascii ''nn'')) = ascii ''no''
   \<and> map_langdetect_to_m2m ul (Some (ascii ''zh-CN'')) = ascii ''zh''
   \<and> map_langdetect_to_m2m ul (Some (ascii ''xx-YY'')) = ascii ''xx''"
  apply (intro conjI)
                 apply (simp_all add: map_langdetect_to_m2m_def)
             apply (simp_all add: ascii_def lower_def ascii_lower_def special_map_def)
  done

theorem map_langdetect_to_m2m_cases_witness:
  "ascii ''PT-BR'' \<noteq> []
   \<and> map_of special_map (lower (\<lambda>s. s) (ascii ''PT-BR'')) = Some (ascii ''pt'')
   \<and> map_langdetect_to_m2m (\<lambda>s. s) (Some (ascii ''PT-BR'')) = ascii ''pt''
   \<and> ascii ''DEU'' \<noteq> []
   \<and> map_of special_map (lower (\<lambda>s. s) (ascii ''DEU'')) = None
   \<and> map_langdetect_to_m2m (\<lambda>s. s) (Some (ascii ''DEU'')) = ascii ''de''"
proof -
  have h1: "ascii ''PT-BR'' \<noteq> []
      \<and> map_of special_map (lower (\<lambda>s. s) (ascii ''PT-BR'')) = Some (ascii ''pt'')"
    by (simp add: ascii_def lower_def ascii_lower_def special_map_def)
  have h2: "ascii ''DEU'' \<noteq> []
      \<and> map_of special_map (lower (\<lambda>s. s) (ascii ''DEU'')) = None"
    by (simp add: ascii_def lower_def ascii_lower_def special_map_def)
  have t: "take 2 (lower (\<lambda>s. s) (ascii ''DEU'')) = ascii ''de''"
    by (simp add: ascii_def lower_def ascii_lower_def)
  from map_langdetect_to_m2m_cases [of "\<lambda>s. s" "ascii ''PT-BR''" "ascii ''pt''"] h1
  have c1: "map_langdetect_to_m2m (\<lambda>s. s) (Some (ascii ''PT-BR'')) = ascii ''pt''"
    by blast
  from map_langdetect_to_m2m_cases [of "\<lambda>s. s" "ascii ''DEU''"] h2
  have "map_langdetect_to_m2m (\<lambda>s. s) (Some (ascii ''DEU''))
      = take 2 (lower (\<lambda>s. s) (ascii ''DEU''))"
    by blast
  with t have c2: "map_langdetect_to_m2m (\<lambda>s. s) (Some (ascii ''DEU'')) = ascii ''de''"
    by simp
  from h1 h2 c1 c2 show ?thesis by blast
qed

section \<open>Escaping\<close>

lemma replace_char_append:
  "replace_char old new (xs @ ys) = replace_char old new xs @ replace_char old new ys"
  by (simp add: replace_char_def)

lemma replace_char_Cons:
  "replace_char old new (c # cs) = (if c = old then new else [c]) @ replace_char old new cs"
  by (simp add: replace_char_def)

lemma replace_char_Nil: "replace_char old new [] = []"
  by (simp add: replace_char_def)

lemma escape_html_Cons: "escape_html (c # cs) = entity c @ escape_html cs"
  by (simp add: escape_html_def entity_def replace_char_Cons replace_char_append
      replace_char_Nil ascii_def)

text \<open>
  C9. \<open>escape_html\<close> replaces \<open>&\<close>, \<open><\<close> and \<open>>\<close> by their entities and nothing else.
  Replacing \<open>&\<close> first, the three replacements in a row give what one pass over the
  text gives, in which no character of an entity is escaped again. Escaping
  \<open><b>&1</b>\<close> gives \<open>&lt;b&gt;&amp;1&lt;/b&gt;\<close>.
\<close>

theorem escape_html_one_pass:
  "escape_html s = escape_once s
   \<and> escape_html (ascii ''<b>&1</b>'') = ascii ''&lt;b&gt;&amp;1&lt;/b&gt;''"
proof
  show "escape_html s = escape_once s"
  proof (induction s)
    case Nil
    show ?case by (simp add: escape_html_def replace_char_def escape_once_def)
  next
    case (Cons c cs)
    then show ?case by (simp add: escape_html_Cons escape_once_def)
  qed
  show "escape_html (ascii ''<b>&1</b>'') = ascii ''&lt;b&gt;&amp;1&lt;/b&gt;''"
    by (simp add: escape_html_def replace_char_def ascii_def)
qed

theorem escape_html_one_pass_witness:
  "escape_html (ascii ''a&lt;'') = ascii ''a&amp;lt;''
   \<and> escape_once (ascii ''a&lt;'') = ascii ''a&amp;lt;''"
  using escape_html_one_pass [of "ascii ''a&lt;''"]
  by (simp add: escape_once_def entity_def ascii_def)

section \<open>The sentence splitter\<close>

lemma isspace_not_terminator: "isspace c \<Longrightarrow> \<not> terminator c"
  by (auto simp: isspace_def terminator_def cjk_terminator_def)

lemma re_split_cur: "re_split lb cur s = (cur @ hd (re_split lb [] s)) # tl (re_split lb [] s)"
proof (induction s arbitrary: lb cur rule: length_induct)
  case (1 s)
  show ?case
  proof (cases s)
    case Nil
    then show ?thesis by simp
  next
    case (Cons c cs)
    show ?thesis
    proof (cases "lb \<and> isspace c")
      case True
      with Cons show ?thesis by simp
    next
      case False
      have len: "length cs < length s" using Cons by simp
      have a: "re_split (terminator c) (cur @ [c]) cs
          = ((cur @ [c]) @ hd (re_split (terminator c) [] cs)) # tl (re_split (terminator c) [] cs)"
        using 1 len by blast
      have b: "re_split (terminator c) [c] cs
          = ([c] @ hd (re_split (terminator c) [] cs)) # tl (re_split (terminator c) [] cs)"
        using 1 len by blast
      show ?thesis using Cons False a b by simp
    qed
  qed
qed

lemma re_split_leading:
  "\<forall>c \<in> set ws. isspace c \<Longrightarrow> re_split False cur (ws @ s) = re_split False (cur @ ws) s"
proof (induction ws arbitrary: cur)
  case Nil
  show ?case by simp
next
  case (Cons c ws)
  then show ?case by (simp add: isspace_not_terminator)
qed

lemma strip_leading: "\<forall>c \<in> set ws. isspace c \<Longrightarrow> strip (ws @ p) = strip p"
  by (simp add: strip_def lstrip_def dropWhile_append2)

lemma strip_trailing:
  assumes "\<forall>c \<in> set ws. isspace c"
  shows "strip (p @ ws) = strip p"
proof (cases "\<forall>c \<in> set p. isspace c")
  case True
  then have "dropWhile isspace (p @ ws) = []" "dropWhile isspace p = []"
    using assms by auto
  then show ?thesis unfolding strip_def lstrip_def by (simp only:)
next
  case False
  then obtain x where x: "x \<in> set p" "\<not> isspace x" by blast
  have "dropWhile isspace (p @ ws) = dropWhile isspace p @ ws"
    using x by (rule_tac dropWhile_append1) auto
  moreover have "dropWhile isspace (rev ws @ q) = dropWhile isspace q" for q
    by (rule dropWhile_append2) (use assms in auto)
  ultimately show ?thesis by (simp add: strip_def lstrip_def rstrip_def)
qed

lemma tidy_Cons: "tidy (p # ps) = (if strip p = [] then tidy ps else strip p # tidy ps)"
  by (simp add: tidy_def)

lemma strip_Nil: "strip [] = []"
  by (simp add: strip_def lstrip_def rstrip_def)

lemma tidy_lstrip: "tidy (re_split False [] (lstrip t)) = tidy (re_split False [] t)"
proof -
  let ?ws = "takeWhile isspace t"
  have ws: "\<forall>c \<in> set ?ws. isspace c" by (auto dest: set_takeWhileD)
  have "re_split False [] t = re_split False [] (?ws @ lstrip t)"
    by (simp add: lstrip_def)
  also have "\<dots> = re_split False ?ws (lstrip t)"
    using re_split_leading[OF ws, of "[]" "lstrip t"] by simp
  also have "\<dots> = (?ws @ hd (re_split False [] (lstrip t))) # tl (re_split False [] (lstrip t))"
    by (rule re_split_cur)
  finally have a: "re_split False [] t = (?ws @ hd (re_split False [] (lstrip t))) # tl (re_split False [] (lstrip t))" .
  have b: "re_split False [] (lstrip t) = hd (re_split False [] (lstrip t)) # tl (re_split False [] (lstrip t))"
    using re_split_cur[of False "[]" "lstrip t"] by simp
  have "tidy (re_split False [] t) = tidy (hd (re_split False [] (lstrip t)) # tl (re_split False [] (lstrip t)))"
    unfolding a by (simp add: tidy_Cons strip_leading[OF ws])
  with b show ?thesis by simp
qed

lemma tidy_trailing:
  "\<forall>c \<in> set ws. isspace c \<Longrightarrow> tidy (re_split lb cur (u @ ws)) = tidy (re_split lb cur u)"
proof (induction u arbitrary: lb cur rule: length_induct)
  case (1 u)
  note ws = 1(2)
  show ?case
  proof (cases u)
    case Nil
    show ?thesis
    proof (cases ws)
      case Nil
      with \<open>u = []\<close> show ?thesis by simp
    next
      case (Cons c ws')
      then have c: "isspace c" and ws': "\<forall>c \<in> set ws'. isspace c" using ws by auto
      show ?thesis
      proof (cases lb)
        case True
        have "dropWhile isspace ws' = []" using ws' by simp
        then show ?thesis using \<open>u = []\<close> Cons True c
          by (simp add: tidy_Cons strip_Nil del: dropWhile_eq_Nil_conv)
      next
        case False
        have "re_split False cur (ws @ []) = re_split False (cur @ ws) []"
          using ws by (rule re_split_leading)
        then show ?thesis using \<open>u = []\<close> False strip_trailing[OF ws, of cur]
          by (simp add: tidy_Cons tidy_def)
      qed
    qed
  next
    case (Cons c cs)
    show ?thesis
    proof (cases "lb \<and> isspace c")
      case True
      show ?thesis
      proof (cases "\<forall>x \<in> set cs. isspace x")
        case all: True
        then have "dropWhile isspace (cs @ ws) = []" "dropWhile isspace cs = []"
          using ws by auto
        then show ?thesis using Cons True by (simp del: dropWhile_eq_Nil_conv)
      next
        case False
        then obtain x where x: "x \<in> set cs" "\<not> isspace x" by blast
        have d: "dropWhile isspace (cs @ ws) = dropWhile isspace cs @ ws"
          using x by (rule_tac dropWhile_append1) auto
        have "length (dropWhile isspace cs) < length u"
          using Cons length_dropWhile_le[of isspace cs] by simp
        then have "tidy (re_split False [] (dropWhile isspace cs @ ws)) = tidy (re_split False [] (dropWhile isspace cs))"
          using 1(1) ws by blast
        then show ?thesis using Cons True d by (simp add: tidy_Cons)
      qed
    next
      case False
      have "length cs < length u" using Cons by simp
      then have "tidy (re_split (terminator c) (cur @ [c]) (cs @ ws)) = tidy (re_split (terminator c) (cur @ [c]) cs)"
        using 1(1) ws by blast
      then show ?thesis using Cons False by auto
    qed
  qed
qed

lemma tidy_rstrip: "tidy (re_split lb cur (rstrip t)) = tidy (re_split lb cur t)"
proof -
  let ?ws = "rev (takeWhile isspace (rev t))"
  have ws: "\<forall>c \<in> set ?ws. isspace c" by (auto dest: set_takeWhileD)
  have "rev (takeWhile isspace (rev t) @ dropWhile isspace (rev t)) = rstrip t @ ?ws"
    unfolding rstrip_def by (rule rev_append)
  then have t: "t = rstrip t @ ?ws" by (simp only: takeWhile_dropWhile_id rev_rev_ident)
  show ?thesis using tidy_trailing[OF ws, of lb cur "rstrip t"] t by simp
qed

lemma tidy_strip: "tidy (re_split False [] (strip t)) = tidy (re_split False [] t)"
  by (simp add: strip_def tidy_rstrip tidy_lstrip)

lemma strip_empty_iff: "strip s = [] \<longleftrightarrow> (\<forall>c \<in> set s. isspace c)"
proof
  assume a: "strip s = []"
  have "dropWhile isspace s = []"
  proof (rule ccontr)
    assume ne: "dropWhile isspace s \<noteq> []"
    then have h: "\<not> isspace (hd (dropWhile isspace s))" by (rule hd_dropWhile)
    from a have "\<forall>x \<in> set (dropWhile isspace s). isspace x"
      by (simp add: strip_def lstrip_def rstrip_def)
    with ne h show False using hd_in_set by blast
  qed
  then show "\<forall>c \<in> set s. isspace c" by simp
next
  assume "\<forall>c \<in> set s. isspace c"
  then have "dropWhile isspace s = []" by simp
  then show "strip s = []" unfolding strip_def lstrip_def rstrip_def by (simp only:) simp
qed

lemma cjk_space_blank: "\<forall>c \<in> set s. isspace c \<Longrightarrow> cjk_space s = s"
proof (induction s)
  case Nil
  show ?case by (simp add: cjk_space_def)
next
  case (Cons c cs)
  then have "\<not> cjk_terminator c" using isspace_not_terminator[of c] by (simp add: terminator_def)
  with Cons show ?case by (simp add: cjk_space_def)
qed

lemma split_into_sentences_spec: "split_into_sentences t = split_spec t"
proof (cases "blank t")
  case True
  then have s: "strip t = []" by (simp add: blank_def)
  then have "cjk_space t = t" by (simp add: strip_empty_iff cjk_space_blank)
  then have "split_spec t = tidy (re_split False [] t)" by (simp add: split_spec_def tidy_def)
  also have "\<dots> = tidy (re_split False [] (strip t))" by (simp only: tidy_strip)
  also have "\<dots> = []" by (simp add: s tidy_def strip_Nil)
  finally show ?thesis using True by (simp add: split_into_sentences_def)
next
  case False
  show ?thesis
    using False
    using tidy_strip[of "cjk_space t"]
    by (simp add: split_into_sentences_def split_spec_def Let_def filter_map o_def tidy_def)
qed

lemma re_split_step:
  "\<not> (lb \<and> isspace c) \<Longrightarrow> re_split lb cur (c # cs) = re_split (terminator c) (cur @ [c]) cs"
  by (simp only: re_split.simps if_False)

lemma re_split_match:
  "lb \<and> isspace c \<Longrightarrow> re_split lb cur (c # cs) = cur # re_split False [] (dropWhile isspace cs)"
  by simp

lemma re_split_not_Nil: "re_split lb cur u \<noteq> []"
  using re_split_cur [of lb cur u] by simp

lemma re_split_interleave:
  "\<exists>ws. length ws = length (re_split lb cur u) - 1
      \<and> (\<forall>w \<in> set ws. w \<noteq> [] \<and> list_all isspace w)
      \<and> cur @ u = interleave (re_split lb cur u) ws"
proof (induction lb cur u rule: re_split.induct)
  case (1 lb cur)
  show ?case by (rule exI [of _ "[]"]) simp
next
  case (2 lb cur c cs)
  show ?case
  proof (cases "lb \<and> isspace c")
    case True
    let ?d = "dropWhile isspace cs"
    let ?rest = "re_split False [] ?d"
    from 2(1) [OF True] obtain ws where
      ws: "length ws = length ?rest - 1 \<and> (\<forall>w \<in> set ws. w \<noteq> [] \<and> list_all isspace w)
          \<and> [] @ ?d = interleave ?rest ws" ..
    let ?w = "c # takeWhile isspace cs"
    have ne: "?rest \<noteq> []" by (rule re_split_not_Nil)
    have w: "?w \<noteq> [] \<and> list_all isspace ?w"
      using True by (auto simp: list_all_iff dest: set_takeWhileD)
    have eq: "re_split lb cur (c # cs) = cur # ?rest" using True by (rule re_split_match)
    have len: "length (?w # ws) = length (cur # ?rest) - 1"
      using ws ne by (cases ?rest) simp_all
    have "interleave (cur # ?rest) (?w # ws) = cur @ ?w @ interleave ?rest ws"
      using ne by simp
    also have "\<dots> = cur @ ?w @ ?d" using ws by simp
    also have "\<dots> = cur @ c # cs" by simp
    finally have il: "cur @ c # cs = interleave (cur # ?rest) (?w # ws)" by simp
    have all: "\<forall>x \<in> set (?w # ws). x \<noteq> [] \<and> list_all isspace x"
      using w ws by simp
    show ?thesis
      unfolding eq
      by (rule exI [of _ "?w # ws"]) (use len all il in blast)
  next
    case False
    from 2(2) [OF False] obtain ws where
      ws: "length ws = length (re_split (terminator c) (cur @ [c]) cs) - 1
          \<and> (\<forall>w \<in> set ws. w \<noteq> [] \<and> list_all isspace w)
          \<and> (cur @ [c]) @ cs = interleave (re_split (terminator c) (cur @ [c]) cs) ws" ..
    have eq: "re_split lb cur (c # cs) = re_split (terminator c) (cur @ [c]) cs"
      using False by (rule re_split_step)
    show ?thesis
      unfolding eq
      by (rule exI [of _ ws]) (use ws in simp)
  qed
qed

lemma re_split_pieces:
  "cur @ u \<noteq> [] \<Longrightarrow> \<not> isspace (hd (cur @ u)) \<Longrightarrow> \<not> isspace (last (cur @ u))
   \<Longrightarrow> (lb \<longrightarrow> cur \<noteq> [] \<and> terminator (last cur))
   \<Longrightarrow> (\<forall>p \<in> set (re_split lb cur u). p \<noteq> [] \<and> \<not> isspace (hd p) \<and> \<not> isspace (last p))
      \<and> (\<forall>p \<in> set (butlast (re_split lb cur u)). terminator (last p))"
proof (induction lb cur u rule: re_split.induct)
  case (1 lb cur)
  then show ?case by simp
next
  case (2 lb cur c cs)
  show ?case
  proof (cases "lb \<and> isspace c")
    case True
    let ?d = "dropWhile isspace cs"
    let ?rest = "re_split False [] ?d"
    have cur: "cur \<noteq> []" "terminator (last cur)" using True 2(6) by auto
    have hdcur: "\<not> isspace (hd cur)" using 2(4) cur by simp
    have lastcur: "\<not> isspace (last cur)" using cur isspace_not_terminator by blast
    have lastu: "\<not> isspace (last (c # cs))" using 2(5) by simp
    have cs: "cs \<noteq> []" using lastu True by auto
    then have lastcs: "\<not> isspace (last cs)" using lastu by simp
    have "last cs \<in> set cs" using cs by simp
    with lastcs have ex: "\<exists>x \<in> set cs. \<not> isspace x" by blast
    then have d: "?d \<noteq> []" by simp
    then have hdd: "\<not> isspace (hd ?d)" by (rule hd_dropWhile)
    have "last (takeWhile isspace cs @ ?d) = last ?d" using d by (rule last_appendR)
    then have "last cs = last ?d" by (simp only: takeWhile_dropWhile_id)
    then have lastd: "\<not> isspace (last ?d)" using lastcs by (rule subst)
    have ih: "(\<forall>p \<in> set ?rest. p \<noteq> [] \<and> \<not> isspace (hd p) \<and> \<not> isspace (last p))
      \<and> (\<forall>p \<in> set (butlast ?rest). terminator (last p))"
    proof (rule 2(1) [OF True])
      show "[] @ ?d \<noteq> []" unfolding append_Nil by (rule d)
      show "\<not> isspace (hd ([] @ ?d))" unfolding append_Nil by (rule hdd)
      show "\<not> isspace (last ([] @ ?d))" unfolding append_Nil by (rule lastd)
      show "False \<longrightarrow> [] \<noteq> [] \<and> terminator (last [])" by (rule impI) (erule FalseE)
    qed
    have ne: "?rest \<noteq> []" by (rule re_split_not_Nil)
    have eq: "re_split lb cur (c # cs) = cur # ?rest" using True by (rule re_split_match)
    have bl: "butlast (cur # ?rest) = cur # butlast ?rest" using ne by simp
    have a: "\<forall>p \<in> set (cur # ?rest). p \<noteq> [] \<and> \<not> isspace (hd p) \<and> \<not> isspace (last p)"
    proof (rule ballI)
      fix p assume "p \<in> set (cur # ?rest)"
      then have "p = cur \<or> p \<in> set ?rest" by (rule set_ConsD)
      then show "p \<noteq> [] \<and> \<not> isspace (hd p) \<and> \<not> isspace (last p)"
      proof
        assume p: "p = cur"
        show ?thesis unfolding p using cur(1) hdcur lastcur by (intro conjI)
      next
        assume "p \<in> set ?rest"
        with ih [THEN conjunct1] show ?thesis by (rule bspec)
      qed
    qed
    have b: "\<forall>p \<in> set (cur # butlast ?rest). terminator (last p)"
    proof (rule ballI)
      fix p assume "p \<in> set (cur # butlast ?rest)"
      then have "p = cur \<or> p \<in> set (butlast ?rest)" by (rule set_ConsD)
      then show "terminator (last p)"
      proof
        assume p: "p = cur"
        show ?thesis unfolding p by (rule cur(2))
      next
        assume "p \<in> set (butlast ?rest)"
        with ih [THEN conjunct2] show ?thesis by (rule bspec)
      qed
    qed
    show ?thesis
      unfolding eq bl using a b by (rule conjI)
  next
    case False
    have eq: "re_split lb cur (c # cs) = re_split (terminator c) (cur @ [c]) cs"
      using False by (rule re_split_step)
    show ?thesis
      unfolding eq
    proof (rule 2(2) [OF False])
      show "(cur @ [c]) @ cs \<noteq> []" by simp
      show "\<not> isspace (hd ((cur @ [c]) @ cs))" using 2(4) by simp
      show "\<not> isspace (last ((cur @ [c]) @ cs))" using 2(5) by simp
      show "terminator c \<longrightarrow> cur @ [c] \<noteq> [] \<and> terminator (last (cur @ [c]))" by simp
    qed
  qed
qed

lemma no_boundary_snoc:
  "no_boundary (cur @ [c]) \<longleftrightarrow>
     no_boundary cur \<and> (cur \<noteq> [] \<longrightarrow> \<not> (terminator (last cur) \<and> isspace c))"
proof (induction cur rule: no_boundary.induct)
  case (1 a b r)
  then show ?case by simp
qed simp_all

lemma re_split_no_boundary:
  "no_boundary cur \<Longrightarrow> (cur \<noteq> [] \<and> terminator (last cur) \<longrightarrow> lb)
   \<Longrightarrow> \<forall>p \<in> set (re_split lb cur u). no_boundary p"
proof (induction lb cur u rule: re_split.induct)
  case (1 lb cur)
  then show ?case by simp
next
  case (2 lb cur c cs)
  show ?case
  proof (cases "lb \<and> isspace c")
    case True
    have "\<forall>p \<in> set (re_split False [] (dropWhile isspace cs)). no_boundary p"
      using 2(1) [OF True] by simp
    then show ?thesis unfolding re_split_match [OF True] using 2(3) by simp
  next
    case False
    have nb: "no_boundary (cur @ [c])"
      using 2(3) 2(4) False by (auto simp: no_boundary_snoc)
    have "\<forall>p \<in> set (re_split (terminator c) (cur @ [c]) cs). no_boundary p"
      using 2(2) [OF False nb] by simp
    then show ?thesis unfolding re_split_step [OF False] .
  qed
qed

lemma cjk_spaced_Cons:
  "cjk_spaced (a # r) \<longleftrightarrow> (cjk_terminator a \<longrightarrow> r = [] \<or> isspace (hd r)) \<and> cjk_spaced r"
  by (cases r) simp_all

lemma cjk_spaced_dropWhile: "cjk_spaced s \<Longrightarrow> cjk_spaced (dropWhile P s)"
proof (induction s)
  case Nil
  show ?case by simp
next
  case (Cons a s)
  from Cons(2) have "cjk_spaced s" by (simp add: cjk_spaced_Cons)
  then have "cjk_spaced (dropWhile P s)" by (rule Cons(1))
  then show ?case using Cons(2) by (cases "P a") (simp_all only: dropWhile.simps if_True if_False)
qed

lemma cjk_spaced_prefix: "cjk_spaced (a @ b) \<Longrightarrow> cjk_spaced a"
proof (induction a)
  case Nil
  show ?case by simp
next
  case (Cons x a)
  from Cons(2) have h: "(cjk_terminator x \<longrightarrow> a @ b = [] \<or> isspace (hd (a @ b))) \<and> cjk_spaced (a @ b)"
    by (simp add: cjk_spaced_Cons)
  then have "cjk_spaced a" using Cons(1) by blast
  moreover have "cjk_terminator x \<longrightarrow> a = [] \<or> isspace (hd a)"
    using h by (cases a) simp_all
  ultimately show ?case by (simp only: cjk_spaced_Cons)
qed

lemma not_cjk_space_char: "\<not> cjk_terminator 32"
  by (simp add: cjk_terminator_def)

lemma cjk_spaced_cjk_space: "cjk_spaced (cjk_space t)"
proof (induction t)
  case Nil
  show ?case by (simp add: cjk_space_def)
next
  case (Cons c cs)
  have eq: "cjk_space (c # cs) = (if cjk_terminator c then c # 32 # cjk_space cs else c # cjk_space cs)"
    by (simp add: cjk_space_def)
  show ?case
  proof (cases "cjk_terminator c")
    case True
    have "isspace 32" by (simp add: isspace_def)
    then show ?thesis using Cons True not_cjk_space_char by (simp add: eq cjk_spaced_Cons)
  next
    case False
    then show ?thesis using Cons by (simp add: eq cjk_spaced_Cons)
  qed
qed

lemma space_after_cjk_eq: "cjk_space t = space_after_cjk t"
  by (induction t) (simp_all add: cjk_space_def cjk_terminator_def)

lemma set_cjk_space: "set t \<subseteq> set (cjk_space t)"
  by (induction t) (auto simp: cjk_space_def)

lemma lstrip_decomp: "s = takeWhile isspace s @ lstrip s"
  by (simp add: lstrip_def)

lemma rstrip_decomp: "s = rstrip s @ rev (takeWhile isspace (rev s))"
proof -
  have "rev (takeWhile isspace (rev s) @ dropWhile isspace (rev s))
      = rstrip s @ rev (takeWhile isspace (rev s))"
    unfolding rstrip_def by (rule rev_append)
  then show ?thesis by (simp only: takeWhile_dropWhile_id rev_rev_ident)
qed

lemma strip_decomp:
  "list_all isspace (takeWhile isspace s)
   \<and> list_all isspace (rev (takeWhile isspace (rev (lstrip s))))
   \<and> s = takeWhile isspace s @ strip s @ rev (takeWhile isspace (rev (lstrip s)))"
proof -
  let ?lead = "takeWhile isspace s"
  let ?trail = "rev (takeWhile isspace (rev (lstrip s)))"
  have a: "list_all isspace ?lead" by (auto simp: list_all_iff dest: set_takeWhileD)
  have b: "list_all isspace ?trail" by (auto simp: list_all_iff dest: set_takeWhileD)
  have "lstrip s = strip s @ ?trail" unfolding strip_def by (rule rstrip_decomp)
  then have "?lead @ lstrip s = ?lead @ strip s @ ?trail" by (rule arg_cong)
  then have c: "s = ?lead @ strip s @ ?trail" by (simp only: lstrip_decomp [symmetric])
  from a b c show ?thesis by (intro conjI)
qed

lemma cjk_spaced_strip: "cjk_spaced s \<Longrightarrow> cjk_spaced (strip s)"
proof -
  assume "cjk_spaced s"
  then have "cjk_spaced (lstrip s)" unfolding lstrip_def by (rule cjk_spaced_dropWhile)
  then have "cjk_spaced (rstrip (lstrip s) @ rev (takeWhile isspace (rev (lstrip s))))"
    by (simp only: rstrip_decomp [symmetric])
  then have "cjk_spaced (rstrip (lstrip s))" by (rule cjk_spaced_prefix)
  then show ?thesis by (simp only: strip_def)
qed

lemma strip_ends:
  assumes "strip s \<noteq> []"
  shows "\<not> isspace (hd (strip s))" and "\<not> isspace (last (strip s))"
proof -
  let ?y = "lstrip s"
  let ?z = "dropWhile isspace (rev ?y)"
  have z: "?z \<noteq> []" using assms by (simp add: strip_def rstrip_def)
  then have "\<not> isspace (hd ?z)" by (rule hd_dropWhile)
  moreover have "last (strip s) = hd ?z"
    unfolding strip_def rstrip_def using z by (simp only: last_rev)
  ultimately show "\<not> isspace (last (strip s))" by simp
  have y: "?y \<noteq> []" using z by auto
  then have hy: "\<not> isspace (hd ?y)" unfolding lstrip_def by (rule hd_dropWhile)
  have "?y = strip s @ rev (takeWhile isspace (rev ?y))" unfolding strip_def by (rule rstrip_decomp)
  then have "hd ?y = hd (strip s @ rev (takeWhile isspace (rev ?y)))" by (rule arg_cong)
  also have "\<dots> = hd (strip s)" using assms by (rule hd_append2)
  finally show "\<not> isspace (hd (strip s))" using hy by simp
qed

lemma strip_id: "p \<noteq> [] \<Longrightarrow> \<not> isspace (hd p) \<Longrightarrow> \<not> isspace (last p) \<Longrightarrow> strip p = p"
proof -
  assume p: "p \<noteq> []" and h: "\<not> isspace (hd p)" and l: "\<not> isspace (last p)"
  have a: "lstrip p = p" unfolding lstrip_def using p h by (cases p) simp_all
  have r: "rev p \<noteq> []" using p by simp
  have "hd (rev p) = last p" using p by (simp add: hd_rev)
  then have "\<not> isspace (hd (rev p))" using l by simp
  then have "dropWhile isspace (rev p) = rev p" using r by (cases "rev p") simp_all
  then have b: "rstrip p = p" by (simp add: rstrip_def)
  show ?thesis by (simp only: strip_def a b)
qed

lemma not_blank_cjk_space: "\<not> blank t \<Longrightarrow> \<not> blank (cjk_space t)"
proof -
  assume "\<not> blank t"
  then obtain c where c: "c \<in> set t" "\<not> isspace c"
    by (auto simp: blank_def strip_empty_iff)
  then have "c \<in> set (cjk_space t)" using set_cjk_space by blast
  with c(2) show ?thesis by (auto simp: blank_def strip_empty_iff)
qed

lemma re_split_cjk_last:
  "list_all (\<lambda>c. \<not> cjk_terminator c) (butlast cur)
   \<Longrightarrow> (cur \<noteq> [] \<and> cjk_terminator (last cur) \<longrightarrow> u = [] \<or> isspace (hd u))
   \<Longrightarrow> cjk_spaced u
   \<Longrightarrow> (cur \<noteq> [] \<and> terminator (last cur) \<longrightarrow> lb)
   \<Longrightarrow> \<forall>p \<in> set (re_split lb cur u). list_all (\<lambda>c. \<not> cjk_terminator c) (butlast p)"
proof (induction lb cur u rule: re_split.induct)
  case (1 lb cur)
  then show ?case by simp
next
  case (2 lb cur c cs)
  from 2(5) have sp: "cjk_spaced cs" and nx: "cjk_terminator c \<longrightarrow> cs = [] \<or> isspace (hd cs)"
    by (simp_all add: cjk_spaced_Cons)
  show ?case
  proof (cases "lb \<and> isspace c")
    case True
    let ?d = "dropWhile isspace cs"
    have ih: "\<forall>p \<in> set (re_split False [] ?d). list_all (\<lambda>c. \<not> cjk_terminator c) (butlast p)"
    proof (rule 2(1) [OF True])
      show "list_all (\<lambda>c. \<not> cjk_terminator c) (butlast [])" by simp
      show "[] \<noteq> [] \<and> cjk_terminator (last []) \<longrightarrow> ?d = [] \<or> isspace (hd ?d)" by simp
      show "cjk_spaced ?d" using sp by (rule cjk_spaced_dropWhile)
      show "[] \<noteq> [] \<and> terminator (last []) \<longrightarrow> False" by simp
    qed
    show ?thesis
      unfolding re_split_match [OF True]
    proof (rule ballI)
      fix p assume "p \<in> set (cur # re_split False [] ?d)"
      then have "p = cur \<or> p \<in> set (re_split False [] ?d)" by (rule set_ConsD)
      then show "list_all (\<lambda>c. \<not> cjk_terminator c) (butlast p)"
      proof
        assume p: "p = cur"
        show ?thesis unfolding p by (rule 2(3))
      next
        assume "p \<in> set (re_split False [] ?d)"
        with ih show ?thesis by (rule bspec)
      qed
    qed
  next
    case False
    have notlast: "cur \<noteq> [] \<Longrightarrow> \<not> cjk_terminator (last cur)"
    proof
      assume ne: "cur \<noteq> []" and k: "cjk_terminator (last cur)"
      then have "isspace c" using 2(4) by simp
      moreover have "terminator (last cur)" using k by (simp add: terminator_def)
      then have lb using ne 2(6) by simp
      ultimately show False using False by simp
    qed
    have allcur: "list_all (\<lambda>c. \<not> cjk_terminator c) cur"
    proof (cases "cur = []")
      case True
      then show ?thesis by simp
    next
      case ne: False
      then have "cur = butlast cur @ [last cur]" by simp
      then have "list_all (\<lambda>c. \<not> cjk_terminator c) cur
          = list_all (\<lambda>c. \<not> cjk_terminator c) (butlast cur @ [last cur])"
        by (rule arg_cong)
      then show ?thesis using 2(3) notlast [OF ne] by simp
    qed
    show ?thesis
      unfolding re_split_step [OF False]
    proof (rule 2(2) [OF False])
      show "list_all (\<lambda>c. \<not> cjk_terminator c) (butlast (cur @ [c]))"
        using allcur by (simp only: butlast_snoc)
      show "cur @ [c] \<noteq> [] \<and> cjk_terminator (last (cur @ [c])) \<longrightarrow> cs = [] \<or> isspace (hd cs)"
        using nx by simp
      show "cjk_spaced cs" by (rule sp)
      show "cur @ [c] \<noteq> [] \<and> terminator (last (cur @ [c])) \<longrightarrow> terminator c" by simp
    qed
  qed
qed

lemma re_split_pieces0:
  "s \<noteq> [] \<Longrightarrow> \<not> isspace (hd s) \<Longrightarrow> \<not> isspace (last s)
   \<Longrightarrow> (\<forall>p \<in> set (re_split False [] s). p \<noteq> [] \<and> \<not> isspace (hd p) \<and> \<not> isspace (last p))
     \<and> (\<forall>p \<in> set (butlast (re_split False [] s)). terminator (last p))"
  using re_split_pieces [of "[]" s False] by simp

lemma re_split_no_boundary0: "\<forall>p \<in> set (re_split False [] s). no_boundary p"
  using re_split_no_boundary [of "[]" False s] by simp

lemma re_split_cjk_last0:
  "cjk_spaced s \<Longrightarrow> \<forall>p \<in> set (re_split False [] s). list_all (\<lambda>c. \<not> cjk_terminator c) (butlast p)"
  using re_split_cjk_last [of "[]" s False] by simp

lemma re_split_interleave0:
  "\<exists>ws. length ws = length (re_split False [] s) - 1
     \<and> (\<forall>w \<in> set ws. w \<noteq> [] \<and> list_all isspace w)
     \<and> s = interleave (re_split False [] s) ws"
  using re_split_interleave [of False "[]" s] by simp

lemma strip_cjk_space_ends:
  assumes "\<not> blank t"
  shows "strip (cjk_space t) \<noteq> []"
    and "\<not> isspace (hd (strip (cjk_space t)))"
    and "\<not> isspace (last (strip (cjk_space t)))"
proof -
  from assms have "\<not> blank (cjk_space t)" by (rule not_blank_cjk_space)
  then show ne: "strip (cjk_space t) \<noteq> []" by (simp add: blank_def)
  from ne show "\<not> isspace (hd (strip (cjk_space t)))" by (rule strip_ends(1))
  from ne show "\<not> isspace (last (strip (cjk_space t)))" by (rule strip_ends(2))
qed

lemma split_nonblank:
  assumes "\<not> blank t"
  shows "split_into_sentences t = re_split False [] (strip (cjk_space t))"
proof -
  let ?ps = "re_split False [] (strip (cjk_space t))"
  have pieces: "\<forall>p \<in> set ?ps. p \<noteq> [] \<and> \<not> isspace (hd p) \<and> \<not> isspace (last p)"
    using re_split_pieces0 [OF strip_cjk_space_ends [OF assms]] by (rule conjunct1)
  have id: "strip p = p" if "p \<in> set ?ps" for p
  proof -
    from pieces that have h: "p \<noteq> [] \<and> \<not> isspace (hd p) \<and> \<not> isspace (last p)" by (rule bspec)
    from h have h1: "p \<noteq> []" and h2: "\<not> isspace (hd p)" and h3: "\<not> isspace (last p)"
      by simp_all
    show ?thesis by (rule strip_id [OF h1 h2 h3])
  qed
  have keep: "strip p \<noteq> []" if "p \<in> set ?ps" for p
  proof -
    from pieces that have h: "p \<noteq> [] \<and> \<not> isspace (hd p) \<and> \<not> isspace (last p)" by (rule bspec)
    then have "p \<noteq> []" by (rule conjunct1)
    then show ?thesis unfolding id [OF that] .
  qed
  have f: "filter (\<lambda>s. strip s \<noteq> []) ?ps = ?ps"
    by (rule filter_True) (rule ballI, rule keep)
  have m: "map strip ?ps = ?ps"
    by (rule map_idI) (rule id)
  have "split_into_sentences t = map strip (filter (\<lambda>s. strip s \<noteq> []) ?ps)"
    using assms by (simp only: split_into_sentences_def Let_def if_False)
  then show ?thesis by (simp only: f m)
qed

lemma terminator_set: "terminator c \<longleftrightarrow> c \<in> {46, 33, 63, 12290, 65281, 65311}"
  by (simp add: terminator_def cjk_terminator_def)

lemma cjk_terminator_set: "cjk_terminator c \<longleftrightarrow> c \<in> {12290, 65281, 65311}"
  by (simp add: cjk_terminator_def)

lemma no_boundary_nth:
  "no_boundary p \<Longrightarrow> Suc j < length p \<Longrightarrow> \<not> (terminator (p ! j) \<and> isspace (p ! Suc j))"
proof (induction p arbitrary: j rule: no_boundary.induct)
  case (1 a b r)
  from 1(2) have nb: "no_boundary (b # r)" and here: "\<not> (terminator a \<and> isspace b)" by simp_all
  show ?case
  proof (cases j)
    case 0
    then show ?thesis using here by simp
  next
    case (Suc k)
    with 1(3) have "Suc k < length (b # r)" by simp
    with nb have "\<not> (terminator ((b # r) ! k) \<and> isspace ((b # r) ! Suc k))" by (rule 1(1))
    then show ?thesis using Suc by simp
  qed
qed simp_all

lemma butlast_all_nth:
  "list_all P (butlast p) \<Longrightarrow> Suc j < length p \<Longrightarrow> P (p ! j)"
proof -
  assume a: "list_all P (butlast p)" and j: "Suc j < length p"
  then have lt: "j < length (butlast p)" by simp
  with a have "P (butlast p ! j)" by (simp add: list_all_length)
  then show ?thesis using lt by (simp only: nth_butlast)
qed

lemma butlast_last_nth:
  "\<forall>p \<in> set (butlast ps). P (last p) \<Longrightarrow> Suc i < length ps \<Longrightarrow> P (last (ps ! i))"
proof -
  assume a: "\<forall>p \<in> set (butlast ps). P (last p)" and i: "Suc i < length ps"
  then have lt: "i < length (butlast ps)" by simp
  then have "butlast ps ! i \<in> set (butlast ps)" by (rule nth_mem)
  with a have "P (last (butlast ps ! i))" by (rule bspec)
  then show ?thesis using lt by (simp only: nth_butlast)
qed

lemma middle_eq: "c = l @ s @ r \<Longrightarrow> s = m \<Longrightarrow> c = l @ m @ r"
  by simp

lemma split_into_sentences_fragments:
  "(\<forall>f \<in> set (split_into_sentences t).
      f \<noteq> [] \<and> \<not> isspace (hd f) \<and> \<not> isspace (last f) \<and> no_boundary f
      \<and> list_all (\<lambda>c. \<not> cjk_terminator c) (butlast f))
   \<and> (\<forall>p \<in> set (butlast (split_into_sentences t)). terminator (last p))
   \<and> (\<exists>lead ws trail.
        list_all isspace lead \<and> list_all isspace trail
        \<and> length ws = length (split_into_sentences t) - 1
        \<and> (\<forall>w \<in> set ws. w \<noteq> [] \<and> list_all isspace w)
        \<and> space_after_cjk t = lead @ interleave (split_into_sentences t) ws @ trail)"
proof (cases "blank t")
  case True
  then have out: "split_into_sentences t = []" by (simp add: split_into_sentences_def)
  from True have ws: "\<forall>c \<in> set t. isspace c" by (simp add: blank_def strip_empty_iff)
  then have "cjk_space t = t" by (rule cjk_space_blank)
  then have sp: "space_after_cjk t = t" by (simp only: space_after_cjk_eq)
  show ?thesis
    unfolding out
  proof (intro conjI)
    show "\<forall>f \<in> set ([] :: pystr list).
        f \<noteq> [] \<and> \<not> isspace (hd f) \<and> \<not> isspace (last f) \<and> no_boundary f
        \<and> list_all (\<lambda>c. \<not> cjk_terminator c) (butlast f)" by simp
    show "\<forall>p \<in> set (butlast ([] :: pystr list)). terminator (last p)" by simp
    show "\<exists>lead ws trail.
        list_all isspace lead \<and> list_all isspace trail
        \<and> length ws = length ([] :: pystr list) - 1
        \<and> (\<forall>w \<in> set ws. w \<noteq> [] \<and> list_all isspace w)
        \<and> space_after_cjk t = lead @ interleave [] ws @ trail"
    proof (intro exI conjI)
      show "list_all isspace t" using ws by (simp add: list_all_iff)
      show "list_all isspace []" by simp
      show "length ([] :: pystr list) = length ([] :: pystr list) - 1" by simp
      show "\<forall>w \<in> set ([] :: pystr list). w \<noteq> [] \<and> list_all isspace w" by simp
      show "space_after_cjk t = t @ interleave [] [] @ []" using sp by simp
    qed
  qed
next
  case False
  let ?s = "strip (cjk_space t)"
  let ?ps = "re_split False [] ?s"
  have out: "split_into_sentences t = ?ps" by (rule split_nonblank [OF False])
  have p1: "(\<forall>p \<in> set ?ps. p \<noteq> [] \<and> \<not> isspace (hd p) \<and> \<not> isspace (last p))
     \<and> (\<forall>p \<in> set (butlast ?ps). terminator (last p))"
    by (rule re_split_pieces0 [OF strip_cjk_space_ends [OF False]])
  have p2: "\<forall>p \<in> set ?ps. no_boundary p" by (rule re_split_no_boundary0)
  have "cjk_spaced ?s" by (rule cjk_spaced_strip [OF cjk_spaced_cjk_space])
  then have p3: "\<forall>p \<in> set ?ps. list_all (\<lambda>c. \<not> cjk_terminator c) (butlast p)"
    by (rule re_split_cjk_last0)
  obtain ws where ws: "length ws = length ?ps - 1
     \<and> (\<forall>w \<in> set ws. w \<noteq> [] \<and> list_all isspace w)
     \<and> ?s = interleave ?ps ws"
    using re_split_interleave0 [of ?s] ..
  let ?lead = "takeWhile isspace (cjk_space t)"
  let ?trail = "rev (takeWhile isspace (rev (lstrip (cjk_space t))))"
  note d = strip_decomp [of "cjk_space t"]
  have whole: "space_after_cjk t = ?lead @ interleave ?ps ws @ ?trail"
    unfolding space_after_cjk_eq [symmetric]
    by (rule middle_eq [OF d [THEN conjunct2, THEN conjunct2] ws [THEN conjunct2, THEN conjunct2]])
  show ?thesis
    unfolding out
  proof (intro conjI)
    show "\<forall>f \<in> set ?ps.
        f \<noteq> [] \<and> \<not> isspace (hd f) \<and> \<not> isspace (last f) \<and> no_boundary f
        \<and> list_all (\<lambda>c. \<not> cjk_terminator c) (butlast f)"
    proof (rule ballI)
      fix f assume m: "f \<in> set ?ps"
      from p1 [THEN conjunct1] m
      have a: "f \<noteq> [] \<and> \<not> isspace (hd f) \<and> \<not> isspace (last f)" by (rule bspec)
      from p2 m have b: "no_boundary f" by (rule bspec)
      from p3 m have c: "list_all (\<lambda>c. \<not> cjk_terminator c) (butlast f)" by (rule bspec)
      from a b c
      show "f \<noteq> [] \<and> \<not> isspace (hd f) \<and> \<not> isspace (last f) \<and> no_boundary f
        \<and> list_all (\<lambda>c. \<not> cjk_terminator c) (butlast f)" by simp
    qed
    show "\<forall>p \<in> set (butlast ?ps). terminator (last p)" by (rule p1 [THEN conjunct2])
    show "\<exists>lead ws trail.
        list_all isspace lead \<and> list_all isspace trail
        \<and> length ws = length ?ps - 1
        \<and> (\<forall>w \<in> set ws. w \<noteq> [] \<and> list_all isspace w)
        \<and> space_after_cjk t = lead @ interleave ?ps ws @ trail"
    proof (intro exI conjI)
      show "list_all isspace ?lead" by (rule d [THEN conjunct1])
      show "list_all isspace ?trail" by (rule d [THEN conjunct2, THEN conjunct1])
      show "length ws = length ?ps - 1" by (rule ws [THEN conjunct1])
      show "\<forall>w \<in> set ws. w \<noteq> [] \<and> list_all isspace w"
        by (rule ws [THEN conjunct2, THEN conjunct1])
      show "space_after_cjk t = ?lead @ interleave ?ps ws @ ?trail" by (rule whole)
    qed
  qed
qed

text \<open>
  C8. The fragments that \<open>split_into_sentences\<close> returns, for every text. They are
  what the specification's algorithm gives (insert a space after each CJK terminator,
  split, trim each piece, drop the empty ones). Every fragment is non-empty and
  neither begins nor ends with white space: the pieces are trimmed and the empty ones
  dropped. Every fragment but the last ends with one of the six terminators \<open>.\<close>,
  \<open>!\<close>, \<open>?\<close>, U+3002, U+FF01, U+FF1F: the text is split only behind a terminator.
  Inside a fragment no terminator is followed by white space: the text is split at
  every run of white space behind a terminator, and the terminator stays with the
  fragment before it. None of the three CJK terminators occurs in a fragment but as
  its last character: a space is inserted after each of them, so the text is split
  there also when no white space follows in the input. The text with these spaces
  inserted is white space, then the fragments in their order with a non-empty run of
  white space between neighbours, then white space: nothing else is removed, added
  or reordered. A text of white space only, or an empty one, gives the empty list;
  "Hello world. This is great!" gives "Hello world." and "This is great!"; two CJK
  sentences with no space between them are split; "3.5" is not split, and tabs, line
  feeds and the ideographic space are trimmed.
\<close>

theorem split_into_sentences_refines:
  "split_into_sentences t = split_spec t
   \<and> (\<forall>f \<in> set (split_into_sentences t).
        f \<noteq> [] \<and> \<not> isspace (hd f) \<and> \<not> isspace (last f))
   \<and> (\<forall>i. Suc i < length (split_into_sentences t)
        \<longrightarrow> last (split_into_sentences t ! i) \<in> {46, 33, 63, 12290, 65281, 65311})
   \<and> (\<forall>f \<in> set (split_into_sentences t). \<forall>j. Suc j < length f
        \<longrightarrow> \<not> (f ! j \<in> {46, 33, 63, 12290, 65281, 65311} \<and> isspace (f ! Suc j)))
   \<and> (\<forall>f \<in> set (split_into_sentences t). \<forall>j. Suc j < length f
        \<longrightarrow> f ! j \<notin> {12290, 65281, 65311})
   \<and> (\<exists>lead ws trail.
        list_all isspace lead \<and> list_all isspace trail
        \<and> length ws = length (split_into_sentences t) - 1
        \<and> (\<forall>w \<in> set ws. w \<noteq> [] \<and> list_all isspace w)
        \<and> space_after_cjk t = lead @ interleave (split_into_sentences t) ws @ trail)
   \<and> (list_all isspace t \<longrightarrow> split_into_sentences t = [])
   \<and> split_into_sentences (ascii ''Hello world. This is great!'')
       = [ascii ''Hello world.'', ascii ''This is great!'']
   \<and> split_into_sentences [20320, 22909, 12290, 20320, 22909, 65311]
       = [[20320, 22909, 12290], [20320, 22909, 65311]]
   \<and> split_into_sentences (9 # 32 # ascii ''Is it 3.5?  Yes!'' @ [10, 12288])
       = [ascii ''Is it 3.5?'', ascii ''Yes!'']"
proof (intro conjI)
  note fr = split_into_sentences_fragments [of t]
  show "split_into_sentences t = split_spec t"
    by (rule split_into_sentences_spec)
  show "\<forall>f \<in> set (split_into_sentences t).
      f \<noteq> [] \<and> \<not> isspace (hd f) \<and> \<not> isspace (last f)"
  proof (rule ballI)
    fix f assume m: "f \<in> set (split_into_sentences t)"
    from fr [THEN conjunct1] m
    have "f \<noteq> [] \<and> \<not> isspace (hd f) \<and> \<not> isspace (last f) \<and> no_boundary f
        \<and> list_all (\<lambda>c. \<not> cjk_terminator c) (butlast f)" by (rule bspec)
    then show "f \<noteq> [] \<and> \<not> isspace (hd f) \<and> \<not> isspace (last f)" by simp
  qed
  show "\<forall>i. Suc i < length (split_into_sentences t)
      \<longrightarrow> last (split_into_sentences t ! i) \<in> {46, 33, 63, 12290, 65281, 65311}"
  proof (intro allI impI)
    fix i assume i: "Suc i < length (split_into_sentences t)"
    from fr [THEN conjunct2, THEN conjunct1] i
    have "terminator (last (split_into_sentences t ! i))" by (rule butlast_last_nth)
    then show "last (split_into_sentences t ! i) \<in> {46, 33, 63, 12290, 65281, 65311}"
      unfolding terminator_set .
  qed
  show "\<forall>f \<in> set (split_into_sentences t). \<forall>j. Suc j < length f
      \<longrightarrow> \<not> (f ! j \<in> {46, 33, 63, 12290, 65281, 65311} \<and> isspace (f ! Suc j))"
  proof (intro ballI allI impI)
    fix f j assume m: "f \<in> set (split_into_sentences t)" and j: "Suc j < length f"
    from fr [THEN conjunct1] m
    have "f \<noteq> [] \<and> \<not> isspace (hd f) \<and> \<not> isspace (last f) \<and> no_boundary f
        \<and> list_all (\<lambda>c. \<not> cjk_terminator c) (butlast f)" by (rule bspec)
    then have "no_boundary f" by simp
    then have "\<not> (terminator (f ! j) \<and> isspace (f ! Suc j))" using j by (rule no_boundary_nth)
    then show "\<not> (f ! j \<in> {46, 33, 63, 12290, 65281, 65311} \<and> isspace (f ! Suc j))"
      unfolding terminator_set .
  qed
  show "\<forall>f \<in> set (split_into_sentences t). \<forall>j. Suc j < length f
      \<longrightarrow> f ! j \<notin> {12290, 65281, 65311}"
  proof (intro ballI allI impI)
    fix f j assume m: "f \<in> set (split_into_sentences t)" and j: "Suc j < length f"
    from fr [THEN conjunct1] m
    have "f \<noteq> [] \<and> \<not> isspace (hd f) \<and> \<not> isspace (last f) \<and> no_boundary f
        \<and> list_all (\<lambda>c. \<not> cjk_terminator c) (butlast f)" by (rule bspec)
    then have "list_all (\<lambda>c. \<not> cjk_terminator c) (butlast f)" by simp
    then have "\<not> cjk_terminator (f ! j)" using j by (rule butlast_all_nth)
    then show "f ! j \<notin> {12290, 65281, 65311}" unfolding cjk_terminator_set .
  qed
  show "\<exists>lead ws trail.
      list_all isspace lead \<and> list_all isspace trail
      \<and> length ws = length (split_into_sentences t) - 1
      \<and> (\<forall>w \<in> set ws. w \<noteq> [] \<and> list_all isspace w)
      \<and> space_after_cjk t = lead @ interleave (split_into_sentences t) ws @ trail"
    by (rule fr [THEN conjunct2, THEN conjunct2])
  show "list_all isspace t \<longrightarrow> split_into_sentences t = []"
    by (simp add: split_into_sentences_def blank_def strip_empty_iff list_all_iff)
  show "split_into_sentences (ascii ''Hello world. This is great!'')
      = [ascii ''Hello world.'', ascii ''This is great!'']"
    by (simp add: split_into_sentences_def ascii_def blank_def strip_def lstrip_def rstrip_def
        cjk_space_def cjk_terminator_def terminator_def isspace_def)
  show "split_into_sentences [20320, 22909, 12290, 20320, 22909, 65311]
      = [[20320, 22909, 12290], [20320, 22909, 65311]]"
    by (simp add: split_into_sentences_def blank_def strip_def lstrip_def rstrip_def
        cjk_space_def cjk_terminator_def terminator_def isspace_def)
  show "split_into_sentences (9 # 32 # ascii ''Is it 3.5?  Yes!'' @ [10, 12288])
      = [ascii ''Is it 3.5?'', ascii ''Yes!'']"
    by (simp add: split_into_sentences_def ascii_def blank_def strip_def lstrip_def rstrip_def
        cjk_space_def cjk_terminator_def terminator_def isspace_def)
qed

theorem split_into_sentences_refines_witness:
  "split_into_sentences (ascii '' Hi!  Bye? ok '') = [ascii ''Hi!'', ascii ''Bye?'', ascii ''ok'']
   \<and> split_spec (ascii '' Hi!  Bye? ok '') = [ascii ''Hi!'', ascii ''Bye?'', ascii ''ok'']
   \<and> ascii ''Bye?'' \<in> set (split_into_sentences (ascii '' Hi!  Bye? ok ''))
   \<and> \<not> isspace (hd (ascii ''Bye?'')) \<and> \<not> isspace (last (ascii ''Bye?''))
   \<and> Suc 1 < length (split_into_sentences (ascii '' Hi!  Bye? ok ''))
   \<and> last (split_into_sentences (ascii '' Hi!  Bye? ok '') ! 1)
       \<in> {46, 33, 63, 12290, 65281, 65311}
   \<and> Suc 2 < length (ascii ''Bye?'')
   \<and> \<not> (ascii ''Bye?'' ! 2 \<in> {46, 33, 63, 12290, 65281, 65311} \<and> isspace (ascii ''Bye?'' ! Suc 2))
   \<and> ascii ''Bye?'' ! 2 \<notin> {12290, 65281, 65311}
   \<and> list_all isspace [32, 9, 12288] \<and> split_into_sentences [32, 9, 12288] = []"
proof -
  let ?x = "ascii '' Hi!  Bye? ok ''"
  let ?f = "ascii ''Bye?''"
  have out: "split_into_sentences ?x = [ascii ''Hi!'', ?f, ascii ''ok'']"
    by (simp add: split_into_sentences_def ascii_def blank_def strip_def lstrip_def rstrip_def
        cjk_space_def cjk_terminator_def terminator_def isspace_def)
  note inst = split_into_sentences_refines [of ?x]
  have c1: "split_into_sentences ?x = split_spec ?x" by (rule inst [THEN conjunct1])
  have c2: "\<forall>f \<in> set (split_into_sentences ?x).
      f \<noteq> [] \<and> \<not> isspace (hd f) \<and> \<not> isspace (last f)"
    by (rule inst [THEN conjunct2, THEN conjunct1])
  have c3: "\<forall>i. Suc i < length (split_into_sentences ?x)
      \<longrightarrow> last (split_into_sentences ?x ! i) \<in> {46, 33, 63, 12290, 65281, 65311}"
    by (rule inst [THEN conjunct2, THEN conjunct2, THEN conjunct1])
  have c4: "\<forall>f \<in> set (split_into_sentences ?x). \<forall>j. Suc j < length f
      \<longrightarrow> \<not> (f ! j \<in> {46, 33, 63, 12290, 65281, 65311} \<and> isspace (f ! Suc j))"
    by (rule inst [THEN conjunct2, THEN conjunct2, THEN conjunct2, THEN conjunct1])
  have c5: "\<forall>f \<in> set (split_into_sentences ?x). \<forall>j. Suc j < length f
      \<longrightarrow> f ! j \<notin> {12290, 65281, 65311}"
    by (rule inst [THEN conjunct2, THEN conjunct2, THEN conjunct2, THEN conjunct2, THEN conjunct1])
  have c7: "list_all isspace [32, 9, 12288] \<longrightarrow> split_into_sentences [32, 9, 12288] = []"
    by (rule split_into_sentences_refines [of "[32, 9, 12288]",
          THEN conjunct2, THEN conjunct2, THEN conjunct2, THEN conjunct2, THEN conjunct2,
          THEN conjunct2, THEN conjunct1])
  have r1: "split_spec ?x = [ascii ''Hi!'', ?f, ascii ''ok'']"
    using c1 out by (simp only:)
  have m: "?f \<in> set (split_into_sentences ?x)" unfolding out by simp
  from c2 m have e: "?f \<noteq> [] \<and> \<not> isspace (hd ?f) \<and> \<not> isspace (last ?f)" by (rule bspec)
  have l: "Suc 1 < length (split_into_sentences ?x)" unfolding out by simp
  from c3 have "Suc 1 < length (split_into_sentences ?x)
      \<longrightarrow> last (split_into_sentences ?x ! 1) \<in> {46, 33, 63, 12290, 65281, 65311}" by (rule spec)
  then have t1: "last (split_into_sentences ?x ! 1) \<in> {46, 33, 63, 12290, 65281, 65311}"
    using l by (rule mp)
  have lf: "Suc 2 < length ?f" by (simp add: ascii_def)
  from c4 m have "\<forall>j. Suc j < length ?f
      \<longrightarrow> \<not> (?f ! j \<in> {46, 33, 63, 12290, 65281, 65311} \<and> isspace (?f ! Suc j))" by (rule bspec)
  then have "Suc 2 < length ?f
      \<longrightarrow> \<not> (?f ! 2 \<in> {46, 33, 63, 12290, 65281, 65311} \<and> isspace (?f ! Suc 2))" by (rule spec)
  then have t2: "\<not> (?f ! 2 \<in> {46, 33, 63, 12290, 65281, 65311} \<and> isspace (?f ! Suc 2))"
    using lf by (rule mp)
  from c5 m have "\<forall>j. Suc j < length ?f \<longrightarrow> ?f ! j \<notin> {12290, 65281, 65311}" by (rule bspec)
  then have "Suc 2 < length ?f \<longrightarrow> ?f ! 2 \<notin> {12290, 65281, 65311}" by (rule spec)
  then have t3: "?f ! 2 \<notin> {12290, 65281, 65311}" using lf by (rule mp)
  have h: "list_all isspace [32, 9, 12288]" by (simp add: isspace_def)
  from c7 h have b: "split_into_sentences [32, 9, 12288] = []" by (rule mp)
  from out r1 m e l t1 lf t2 t3 h b show ?thesis by (intro conjI) (simp_all only: simp_thms)
qed

section \<open>Blank input\<close>

lemma blank_iff: "blank s \<longleftrightarrow> list_all isspace s"
  by (simp add: blank_def strip_empty_iff list_all_iff)

lemma startswith_en: "startswith s (ascii ''en'') \<longleftrightarrow> take 2 s = ascii ''en''"
  by (simp add: startswith_def ascii_def numeral_2_eq_2)

text \<open>
  C1, as the claim states it, fails: for the empty article the result's
  \<open>verdict_color\<close> is the grey "#6b7280", not the empty string.
\<close>

theorem process_empty_color_counterexample:
  "process example_backends (Some []) \<noteq>
    ([], Some \<lparr>detected_language = [], translated_text = [], overall_true_score = 0.5,
                verdict_label = [], verdict_color = [], highlighted_html = [],
                sentence_scores = []\<rparr>)"
  by (simp add: process_def strip_Nil ret_def ascii_def)

text \<open>
  C1, amended. For every input that is \<open>None\<close>, empty or white space only, \<open>process\<close>
  calls no collaborator and returns the empty-result record: \<open>overall_true_score\<close> is
  0.5, \<open>verdict_color\<close> is "#6b7280", \<open>sentence_scores\<close> is the empty list and every
  other field is the empty string.
\<close>

theorem process_empty_result:
  "(case article_text of None \<Rightarrow> True | Some t \<Rightarrow> list_all isspace t) \<Longrightarrow>
   process b article_text =
    ([], Some \<lparr>detected_language = [], translated_text = [], overall_true_score = 0.5,
                verdict_label = [], verdict_color = ascii ''#6b7280'', highlighted_html = [],
                sentence_scores = []\<rparr>)"
  by (cases article_text) (simp_all add: process_def strip_Nil ret_def strip_empty_iff list_all_iff)

theorem process_empty_result_witness:
  "list_all isspace [32, 10, 9] \<and> process example_backends (Some [32, 10, 9]) =
    ([], Some \<lparr>detected_language = [], translated_text = [], overall_true_score = 0.5,
                verdict_label = [], verdict_color = ascii ''#6b7280'', highlighted_html = [],
                sentence_scores = []\<rparr>)"
proof -
  have h: "list_all isspace [32, 10, 9]" by (simp add: isspace_def)
  then have "case Some [32, 10, 9] of None \<Rightarrow> True | Some t \<Rightarrow> list_all isspace t" by simp
  from process_empty_result [OF this, of example_backends] h show ?thesis by blast
qed

section \<open>The translator\<close>

text \<open>
  C2, as the claim states it, fails: for the text of one space and the language
  code "en" the translator returns the empty string, not the text.
\<close>

theorem translate_english_counterexample:
  "snd (translate_to_english example_backends [32] (ascii ''en'')) \<noteq> Some [32]"
  by (simp add: translate_to_english_def blank_iff isspace_def ret_def)

text \<open>
  C2, amended. For every language code whose first two characters are "en",
  \<open>translate_to_english\<close> makes no call to the translation model; it returns the
  text unchanged when the text is empty or holds a character that is not white
  space, and the empty string when the text is white space only.
\<close>

theorem translate_english_identity:
  "take 2 src_lang = ascii ''en'' \<Longrightarrow>
   translate_to_english b t src_lang = ([], Some (if list_all isspace t then [] else t))
   \<and> (t = [] \<or> \<not> list_all isspace t \<longrightarrow> translate_to_english b t src_lang = ([], Some t))"
  by (auto simp: translate_to_english_def blank_iff ret_def startswith_en)

theorem translate_english_identity_witness:
  "take 2 (ascii ''en-US'') = ascii ''en'' \<and> \<not> list_all isspace (ascii ''Bonjour'')
   \<and> translate_to_english example_backends (ascii ''Bonjour'') (ascii ''en-US'')
       = ([], Some (ascii ''Bonjour''))"
proof -
  have h: "take 2 (ascii ''en-US'') = ascii ''en''" by (simp add: ascii_def)
  have n: "\<not> list_all isspace (ascii ''Bonjour'')" by (simp add: ascii_def isspace_def)
  from translate_english_identity [OF h, of example_backends "ascii ''Bonjour''"] n
  have "translate_to_english example_backends (ascii ''Bonjour'') (ascii ''en-US'')
       = ([], Some (ascii ''Bonjour''))"
    by blast
  with h n show ?thesis by blast
qed

section \<open>The classifier\<close>

lemma label_to_score_none:
  "k \<notin> set (map (lower ul) (labels res)) \<Longrightarrow> label_to_score ul res k = None"
proof -
  assume a: "k \<notin> set (map (lower ul) (labels res))"
  have "k \<notin> fst ` set (rev (zip (map (lower ul) (labels res)) (scores res)))"
  proof
    assume "k \<in> fst ` set (rev (zip (map (lower ul) (labels res)) (scores res)))"
    then obtain v where "(k, v) \<in> set (zip (map (lower ul) (labels res)) (scores res))" by auto
    then have "k \<in> set (map (lower ul) (labels res))" by (rule set_zip_leftD)
    with a show False by blast
  qed
  then show ?thesis unfolding label_to_score_def by (simp add: map_of_eq_None_iff)
qed

lemma true_of_absent:
  "ascii ''true'' \<notin> set (map (lower ul) (labels res)) \<Longrightarrow> true_of ul res = 0"
  by (simp add: true_of_def label_to_score_none)

text \<open>
  C3. A response has no "true" label when none of its labels, lower-cased as the code
  reads them, is "true". When the classifier's response for a text that is not
  blank has no "true" label, \<open>classify_truth_score\<close> returns 0.0 after the one call.
  When, in a batch, the response for the sentence at index \<open>i\<close> has no "true" label,
  \<open>classify_sentences\<close> gives that sentence the score 0.0.
\<close>

theorem missing_true_label_scores_zero:
  "(\<not> list_all isspace t \<and> zero_shot b t = Some res
      \<and> ascii ''true'' \<notin> set (map (lower (unicode_lower b)) (labels res))
     \<longrightarrow> classify_truth_score b t = ([ClassifyCall t], Some 0))
  \<and> (sentences \<noteq> [] \<and> zero_shot_batch b (slice_to sentences cap) = Some results
      \<and> i < length (slice_to sentences cap) \<and> i < length results
      \<and> ascii ''true'' \<notin> set (map (lower (unicode_lower b)) (labels (results ! i)))
     \<longrightarrow> (\<exists>out. snd (classify_sentences b sentences cap) = Some out \<and> i < length out
          \<and> out ! i = \<lparr>sentence = slice_to sentences cap ! i, true_score = 0\<rparr>))"
proof (intro conjI impI)
  assume "\<not> list_all isspace t \<and> zero_shot b t = Some res
      \<and> ascii ''true'' \<notin> set (map (lower (unicode_lower b)) (labels res))"
  then show "classify_truth_score b t = ([ClassifyCall t], Some 0)"
    by (simp add: classify_truth_score_def blank_iff bind_def invoke_def ret_def true_of_absent)
next
  let ?lim = "slice_to sentences cap"
  let ?scored = "map (\<lambda>(sent, res). \<lparr>sentence = sent, true_score = true_of (unicode_lower b) res\<rparr>) (zip ?lim results)"
  let ?rest = "map (\<lambda>sent. \<lparr>sentence = sent, true_score = 0.5\<rparr>) (drop (length ?lim) sentences)"
  assume a: "sentences \<noteq> [] \<and> zero_shot_batch b ?lim = Some results
      \<and> i < length ?lim \<and> i < length results
      \<and> ascii ''true'' \<notin> set (map (lower (unicode_lower b)) (labels (results ! i)))"
  then have out: "snd (classify_sentences b sentences cap) = Some (?scored @ ?rest)"
    by (simp add: classify_sentences_def Let_def bind_def invoke_def ret_def)
  have lz: "i < length (zip ?lim results)" using a by simp
  then have len: "i < length ?scored" by simp
  have len2: "i < length (?scored @ ?rest)" using len by (simp only: length_append trans_less_add1)
  have "(?scored @ ?rest) ! i = ?scored ! i" using len by (simp only: nth_append if_True)
  also have "\<dots> = (\<lambda>(sent, res). \<lparr>sentence = sent, true_score = true_of (unicode_lower b) res\<rparr>)
      (zip ?lim results ! i)"
    using lz by (rule nth_map)
  also have "zip ?lim results ! i = (?lim ! i, results ! i)"
    using a by (simp only: nth_zip)
  also have "(\<lambda>(sent, res). \<lparr>sentence = sent, true_score = true_of (unicode_lower b) res\<rparr>)
      (?lim ! i, results ! i) = \<lparr>sentence = ?lim ! i, true_score = 0\<rparr>"
    using a by (simp add: true_of_absent)
  finally have "(?scored @ ?rest) ! i = \<lparr>sentence = ?lim ! i, true_score = 0\<rparr>" .
  with out len2 show "\<exists>out. snd (classify_sentences b sentences cap) = Some out \<and> i < length out
          \<and> out ! i = \<lparr>sentence = ?lim ! i, true_score = 0\<rparr>"
    by blast
qed

theorem missing_true_label_scores_zero_witness:
  "\<not> list_all isspace (ascii ''Rain.'')
   \<and> zero_shot no_true_backends (ascii ''Rain.'')
       = Some \<lparr>labels = [ascii ''false''], scores = [0.9]\<rparr>
   \<and> ascii ''true'' \<notin> set (map (lower (unicode_lower no_true_backends)) [ascii ''false''])
   \<and> classify_truth_score no_true_backends (ascii ''Rain.'')
       = ([ClassifyCall (ascii ''Rain.'')], Some 0)
   \<and> (\<exists>out. snd (classify_sentences no_true_backends [ascii ''Rain.'', ascii ''Sun.''] 40)
               = Some out
        \<and> 1 < length out \<and> out ! 1 = \<lparr>sentence = ascii ''Sun.'', true_score = 0\<rparr>)"
proof -
  let ?b = no_true_backends
  let ?res = "\<lparr>labels = [ascii ''false''], scores = [0.9]\<rparr>"
  let ?ss = "[ascii ''Rain.'', ascii ''Sun.'']"
  let ?r = "\<lparr>labels = [ascii ''False'', ascii ''other''], scores = [0.6, 0.4]\<rparr>"
  have sl: "slice_to ?ss 40 = ?ss" by (simp add: slice_to_def)
  have h1: "\<not> list_all isspace (ascii ''Rain.'')" by (simp add: ascii_def isspace_def)
  have h2: "zero_shot ?b (ascii ''Rain.'') = Some ?res"
    by (simp add: no_true_backends_def example_backends_def)
  have h3: "ascii ''true'' \<notin> set (map (lower (unicode_lower ?b)) (labels ?res))"
    by (simp add: ascii_def lower_def ascii_lower_def)
  have h4: "zero_shot_batch ?b (slice_to ?ss 40) = Some [?r, ?r]"
    by (simp add: sl no_true_backends_def example_backends_def)
  have h5: "ascii ''true'' \<notin> set (map (lower (unicode_lower ?b)) (labels ([?r, ?r] ! 1)))"
    by (simp add: ascii_def lower_def ascii_lower_def)
  have h6: "?ss \<noteq> [] \<and> 1 < length (slice_to ?ss 40) \<and> (1::nat) < length [?r, ?r]"
    by (simp add: sl)
  note inst = missing_true_label_scores_zero
    [where t = "ascii ''Rain.''" and b = ?b and res = ?res and sentences = ?ss and cap = 40
       and results = "[?r, ?r]" and i = 1]
  from inst h1 h2 h3
  have c1: "classify_truth_score ?b (ascii ''Rain.'') = ([ClassifyCall (ascii ''Rain.'')], Some 0)"
    by blast
  from inst h4 h5 h6
  have "\<exists>out. snd (classify_sentences ?b ?ss 40) = Some out \<and> 1 < length out
          \<and> out ! 1 = \<lparr>sentence = slice_to ?ss 40 ! 1, true_score = 0\<rparr>"
    by blast
  then have c2: "\<exists>out. snd (classify_sentences ?b ?ss 40) = Some out \<and> 1 < length out
          \<and> out ! 1 = \<lparr>sentence = ascii ''Sun.'', true_score = 0\<rparr>"
    by (simp add: sl)
  from h1 h2 h3 c1 c2 show ?thesis by simp
qed

text \<open>
  C4. For a cap that is not negative (the default is 40), \<open>classify_sentences\<close> on a
  list that is not empty makes exactly one call to the classifier, with the first
  \<open>cap\<close> sentences in order, which are at most \<open>cap\<close>. When the classifier answers,
  the result is the scored sentences of the batch followed by every sentence from
  index \<open>cap\<close> on, each with the score 0.5; with one response for each sentence of
  the batch, the sentence at every index from \<open>cap\<close> on has the score 0.5. The
  empty list gives the empty list and no call.
\<close>

theorem classify_sentences_cap:
  "0 \<le> cap \<Longrightarrow>
   (sentences \<noteq> [] \<longrightarrow>
      fst (classify_sentences b sentences cap) = [ClassifyBatchCall (take (nat cap) sentences)]
      \<and> length (take (nat cap) sentences) \<le> nat cap)
 \<and> (sentences \<noteq> [] \<and> zero_shot_batch b (take (nat cap) sentences) = Some results \<longrightarrow>
      snd (classify_sentences b sentences cap) =
        Some (map (\<lambda>(sent, res). \<lparr>sentence = sent, true_score = true_of (unicode_lower b) res\<rparr>)
                (zip (take (nat cap) sentences) results)
              @ map (\<lambda>sent. \<lparr>sentence = sent, true_score = 0.5\<rparr>) (drop (nat cap) sentences)))
 \<and> (sentences \<noteq> [] \<and> zero_shot_batch b (take (nat cap) sentences) = Some results
      \<and> length (take (nat cap) sentences) \<le> length results \<longrightarrow>
      (\<exists>out. snd (classify_sentences b sentences cap) = Some out \<and> length out = length sentences
        \<and> (\<forall>i. nat cap \<le> i \<and> i < length sentences \<longrightarrow>
              out ! i = \<lparr>sentence = sentences ! i, true_score = 0.5\<rparr>)))
 \<and> classify_sentences b [] cap = ([], Some [])"
proof (intro conjI impI)
  assume cap: "0 \<le> cap"
  then have lim: "slice_to sentences cap = take (nat cap) sentences" by (simp add: slice_to_def)
  have dr: "drop (length (take (nat cap) sentences)) sentences = drop (nat cap) sentences"
    by (cases "nat cap \<le> length sentences") (simp_all add: min_def)
  show "classify_sentences b [] cap = ([], Some [])" by (simp add: classify_sentences_def ret_def)
  { assume ne: "sentences \<noteq> []"
    show "fst (classify_sentences b sentences cap) = [ClassifyBatchCall (take (nat cap) sentences)]"
      using ne lim
      by (cases "zero_shot_batch b (take (nat cap) sentences)")
         (simp_all add: classify_sentences_def Let_def bind_def invoke_def ret_def)
    show "length (take (nat cap) sentences) \<le> nat cap" by simp }
  { assume a: "sentences \<noteq> [] \<and> zero_shot_batch b (take (nat cap) sentences) = Some results"
    show "snd (classify_sentences b sentences cap) =
        Some (map (\<lambda>(sent, res). \<lparr>sentence = sent, true_score = true_of (unicode_lower b) res\<rparr>)
                (zip (take (nat cap) sentences) results)
              @ map (\<lambda>sent. \<lparr>sentence = sent, true_score = 0.5\<rparr>) (drop (nat cap) sentences))"
      using a lim dr by (simp add: classify_sentences_def Let_def bind_def invoke_def ret_def) }
  { assume a: "sentences \<noteq> [] \<and> zero_shot_batch b (take (nat cap) sentences) = Some results
      \<and> length (take (nat cap) sentences) \<le> length results"
    let ?scored = "map (\<lambda>(sent, res). \<lparr>sentence = sent, true_score = true_of (unicode_lower b) res\<rparr>)
                (zip (take (nat cap) sentences) results)"
    let ?rest = "map (\<lambda>sent. \<lparr>sentence = sent, true_score = 0.5\<rparr>) (drop (nat cap) sentences)"
    have out: "snd (classify_sentences b sentences cap) = Some (?scored @ ?rest)"
      using a lim dr by (simp add: classify_sentences_def Let_def bind_def invoke_def ret_def)
    have ls: "length ?scored = min (length sentences) (nat cap)" using a by simp
    have len: "length (?scored @ ?rest) = length sentences" using ls by simp
    have idx: "(?scored @ ?rest) ! i = \<lparr>sentence = sentences ! i, true_score = 0.5\<rparr>"
      if "nat cap \<le> i \<and> i < length sentences" for i
    proof -
      from that have l: "length ?scored = nat cap" using ls by simp
      then have "(?scored @ ?rest) ! i = ?rest ! (i - nat cap)" using that by (simp add: nth_append)
      also have "\<dots> = \<lparr>sentence = drop (nat cap) sentences ! (i - nat cap), true_score = 0.5\<rparr>"
      proof -
        have "i - nat cap < length (drop (nat cap) sentences)" using that by auto
        then show ?thesis by (rule nth_map)
      qed
      also have "drop (nat cap) sentences ! (i - nat cap) = sentences ! i"
      proof -
        have "nat cap \<le> length sentences" using that by auto
        then have "drop (nat cap) sentences ! (i - nat cap) = sentences ! (nat cap + (i - nat cap))"
          by (rule nth_drop)
        then show ?thesis using that by simp
      qed
      finally show ?thesis .
    qed
    show "\<exists>out. snd (classify_sentences b sentences cap) = Some out \<and> length out = length sentences
        \<and> (\<forall>i. nat cap \<le> i \<and> i < length sentences \<longrightarrow>
              out ! i = \<lparr>sentence = sentences ! i, true_score = 0.5\<rparr>)"
      using out len idx by (intro exI[of _ "?scored @ ?rest"]) blast }
qed

theorem classify_sentences_cap_witness:
  "(0::int) \<le> 2
   \<and> fst (classify_sentences example_backends [ascii ''A.'', ascii ''B.'', ascii ''C.''] 2)
       = [ClassifyBatchCall [ascii ''A.'', ascii ''B.'']]
   \<and> snd (classify_sentences example_backends [ascii ''A.'', ascii ''B.'', ascii ''C.''] 2)
       = Some [\<lparr>sentence = ascii ''A.'', true_score = 0.2\<rparr>,
               \<lparr>sentence = ascii ''B.'', true_score = 0.2\<rparr>,
               \<lparr>sentence = ascii ''C.'', true_score = 0.5\<rparr>]"
proof -
  let ?ss = "[ascii ''A.'', ascii ''B.'', ascii ''C.'']"
  let ?r = "\<lparr>labels = [ascii ''false'', ascii ''true''], scores = [0.8, 0.2]\<rparr>"
  have h0: "(0::int) \<le> 2" by simp
  have tk: "take (nat 2) ?ss = [ascii ''A.'', ascii ''B.'']" by (simp add: numeral_2_eq_2)
  have dr: "drop (nat 2) ?ss = [ascii ''C.'']" by (simp add: numeral_2_eq_2)
  have h1: "?ss \<noteq> []" by simp
  have h2: "zero_shot_batch example_backends (take (nat 2) ?ss) = Some [?r, ?r]"
    by (simp add: tk example_backends_def)
  have t: "true_of (unicode_lower example_backends) ?r = 0.2"
    by (simp add: true_of_def label_to_score_def lower_def ascii_lower_def ascii_def)
  note inst = classify_sentences_cap [OF h0, of ?ss example_backends "[?r, ?r]"]
  from inst h1
  have "fst (classify_sentences example_backends ?ss 2)
      = [ClassifyBatchCall (take (nat 2) ?ss)]"
    by blast
  then have c1: "fst (classify_sentences example_backends ?ss 2)
      = [ClassifyBatchCall [ascii ''A.'', ascii ''B.'']]"
    by (simp only: tk)
  from inst h1 h2
  have "snd (classify_sentences example_backends ?ss 2) =
        Some (map (\<lambda>(sent, res).
                     \<lparr>sentence = sent, true_score = true_of (unicode_lower example_backends) res\<rparr>)
                (zip (take (nat 2) ?ss) [?r, ?r])
              @ map (\<lambda>sent. \<lparr>sentence = sent, true_score = 0.5\<rparr>) (drop (nat 2) ?ss))"
    by blast
  then have c2: "snd (classify_sentences example_backends ?ss 2)
       = Some [\<lparr>sentence = ascii ''A.'', true_score = 0.2\<rparr>,
               \<lparr>sentence = ascii ''B.'', true_score = 0.2\<rparr>,
               \<lparr>sentence = ascii ''C.'', true_score = 0.5\<rparr>]"
    by (simp only: tk dr t zip_Cons_Cons zip_Nil list.map append_Cons append_Nil case_prod_conv)
  from h0 c1 c2 show ?thesis by blast
qed

lemma take_drop_length: "take n xs @ drop (length (take n xs)) xs = xs"
  by (cases "n \<le> length xs") (simp_all add: min_def)

lemma slice_to_drop: "slice_to xs k @ drop (length (slice_to xs k)) xs = xs"
  by (cases "0 \<le> k") (simp_all only: slice_to_def if_True if_False take_drop_length)

text \<open>
  C10, as the claim states it, fails: when the classifier answers a batch of one
  sentence with an empty list, \<open>classify_sentences\<close> returns the empty list, which is
  shorter than its input.
\<close>

theorem classify_sentences_length_counterexample:
  "map_option length (snd (classify_sentences short_backends [ascii ''A.''] 40))
     \<noteq> Some (length [ascii ''A.''])"
  by (simp add: classify_sentences_def Let_def bind_def invoke_def ret_def slice_to_def
      short_backends_def example_backends_def)

text \<open>
  C10, amended. For every list of sentences and every cap, when the classifier
  answers the batch with at least one response for each sentence it was given (or
  the list is empty), \<open>classify_sentences\<close> returns a list as long as its input
  whose \<open>i\<close>-th element has the \<open>i\<close>-th input sentence as its \<open>sentence\<close> field, below
  and above the cap.
\<close>

theorem classify_sentences_preserves_sentences:
  "(sentences \<noteq> [] \<longrightarrow> zero_shot_batch b (slice_to sentences cap) = Some results
      \<and> length (slice_to sentences cap) \<le> length results) \<Longrightarrow>
   \<exists>out. snd (classify_sentences b sentences cap) = Some out
      \<and> length out = length sentences \<and> map sentence out = sentences
      \<and> (\<forall>i < length sentences. sentence (out ! i) = sentences ! i)"
proof (cases "sentences = []")
  case True
  then show ?thesis by (simp add: classify_sentences_def ret_def)
next
  case False
  assume "sentences \<noteq> [] \<longrightarrow> zero_shot_batch b (slice_to sentences cap) = Some results
      \<and> length (slice_to sentences cap) \<le> length results"
  with False have a: "zero_shot_batch b (slice_to sentences cap) = Some results"
    and l: "length (slice_to sentences cap) \<le> length results" by blast+
  let ?lim = "slice_to sentences cap"
  let ?scored = "map (\<lambda>(sent, res). \<lparr>sentence = sent, true_score = true_of (unicode_lower b) res\<rparr>) (zip ?lim results)"
  let ?rest = "map (\<lambda>sent. \<lparr>sentence = sent, true_score = 0.5\<rparr>) (drop (length ?lim) sentences)"
  have out: "snd (classify_sentences b sentences cap) = Some (?scored @ ?rest)"
    using False a by (simp add: classify_sentences_def Let_def bind_def invoke_def ret_def)
  have "map sentence ?scored = map fst (zip ?lim results)"
    by (simp add: case_prod_beta o_def)
  also have "\<dots> = take (length results) ?lim" by (simp add: map_fst_zip_take min_def)
  also have "\<dots> = ?lim" using l by simp
  finally have s: "map sentence ?scored = ?lim" .
  have r: "map sentence ?rest = drop (length ?lim) sentences" by (simp add: o_def)
  have m: "map sentence (?scored @ ?rest) = sentences"
    using s r slice_to_drop[of sentences cap] by simp
  have len: "length (?scored @ ?rest) = length sentences"
    using arg_cong[OF m, of length] by (simp only: length_map)
  have nth: "\<forall>i < length sentences. sentence ((?scored @ ?rest) ! i) = sentences ! i"
  proof (intro allI impI)
    fix i assume "i < length sentences"
    then have "i < length (?scored @ ?rest)" by (simp only: len)
    then have "map sentence (?scored @ ?rest) ! i = sentence ((?scored @ ?rest) ! i)"
      by (rule nth_map)
    then show "sentence ((?scored @ ?rest) ! i) = sentences ! i" by (simp only: m)
  qed
  show ?thesis
    by (rule exI[of _ "?scored @ ?rest"]) (use out m len nth in blast)
qed

theorem classify_sentences_preserves_sentences_witness:
  "length (slice_to [ascii ''A.'', ascii ''B.'', ascii ''C.''] 2) \<le> (2::nat)
   \<and> (\<exists>out. snd (classify_sentences example_backends
                    [ascii ''A.'', ascii ''B.'', ascii ''C.''] 2) = Some out
        \<and> length out = 3 \<and> map sentence out = [ascii ''A.'', ascii ''B.'', ascii ''C.''])"
proof -
  let ?ss = "[ascii ''A.'', ascii ''B.'', ascii ''C.'']"
  let ?r = "\<lparr>labels = [ascii ''false'', ascii ''true''], scores = [0.8, 0.2]\<rparr>"
  have sl: "slice_to ?ss 2 = [ascii ''A.'', ascii ''B.'']"
    by (simp add: slice_to_def numeral_2_eq_2)
  have zs: "zero_shot_batch example_backends [ascii ''A.'', ascii ''B.''] = Some [?r, ?r]"
    by (simp add: example_backends_def)
  have h: "?ss \<noteq> [] \<longrightarrow> zero_shot_batch example_backends (slice_to ?ss 2) = Some [?r, ?r]
      \<and> length (slice_to ?ss 2) \<le> length [?r, ?r]"
    unfolding sl using zs by simp
  from classify_sentences_preserves_sentences [OF h]
  obtain out where all: "snd (classify_sentences example_backends ?ss 2) = Some out
      \<and> length out = length ?ss \<and> map sentence out = ?ss
      \<and> (\<forall>i < length ?ss. sentence (out ! i) = ?ss ! i)" ..
  note o = all [THEN conjunct1]
  note l = all [THEN conjunct2, THEN conjunct1]
  note m = all [THEN conjunct2, THEN conjunct2, THEN conjunct1]
  have "length ?ss = 3" by simp
  with l have l3: "length out = 3" by (rule trans)
  have b: "length (slice_to ?ss 2) \<le> (2::nat)" unfolding sl by simp
  show ?thesis
    apply (rule conjI)
     apply (rule b)
    apply (rule exI [of _ out])
    apply (rule conjI)
     apply (rule o)
    apply (rule conjI)
     apply (rule l3)
    apply (rule m)
    done
qed

end
